theory Spec2Isabelle
  imports Complex_Main "HOL-Library.Monad_Syntax" "HOL-Library.Multiset"
begin

section \<open>Document scanner: edge-support scoring pipeline (scanner.cpp)\<close>

text \<open>
  The development embeds \<^verbatim>\<open>scanner/src/main/cpp/scanner.cpp\<close>.

  \<^item> \<^verbatim>\<open>int\<close> is \<^typ>\<open>int\<close>: every coordinate is a pixel position of an image, so no
    sum, difference or product of the code leaves the 32-bit range.
  \<^item> \<^verbatim>\<open>double\<close> and \<^verbatim>\<open>float\<close> values are of type \<^typ>\<open>real\<close>. Where the code turns a
    floating-point result into an integer (a sample position, the number of samples of
    an edge, a coordinate of the result), every operation that leads to it is rounded
    to its format, binary32 for \<^verbatim>\<open>float\<close> and binary64 for \<^verbatim>\<open>double\<close> (\<open>f32\<close>, \<open>f64\<close>):
    there one unit in the last place decides between two integers. The angle cosines,
    areas and scores, which are only compared or returned, are computed exactly.
    A floating division goes through \<open>fdiv\<close>, which reports a zero divisor.
  \<^item> A result is an \<open>option\<close>: \<open>None\<close> is a fault of the C++ program (a read outside a
    \<^verbatim>\<open>std::vector\<close> or a \<^verbatim>\<open>cv::Mat\<close>, a division by zero).
  \<^item> OpenCV is not part of the repository. Its functions are the fields of the record
    \<open>cv\<close>, a parameter of every function that calls them; \<open>'m\<close> is \<^verbatim>\<open>cv::Mat\<close>.
    \<^verbatim>\<open>std::sort\<close>, whose result the standard fixes only up to the order of equivalent
    elements, is a parameter in the same way.
  \<^item> Logging (\<^verbatim>\<open>LOGD\<close>) has no effect on any result and is left out.
\<close>

subsection \<open>C++ primitives\<close>

text \<open>\<^verbatim>\<open>a / b\<close> on floating-point operands.\<close>

definition fdiv :: "real \<Rightarrow> real \<Rightarrow> real option" where
  "fdiv a b = (if b = 0 then None else Some (a / b))"

text \<open>\<^verbatim>\<open>v[i]\<close> on a \<^verbatim>\<open>std::vector\<close>.\<close>

definition vec_at :: "'a list \<Rightarrow> nat \<Rightarrow> 'a option" where
  "vec_at v i = (if i < length v then Some (v ! i) else None)"

text \<open>\<^verbatim>\<open>(int)r\<close>: conversion of a floating-point value truncates toward zero.\<close>

definition c_trunc :: "real \<Rightarrow> int" where
  "c_trunc r = (if 0 \<le> r then \<lfloor>r\<rfloor> else \<lceil>r\<rceil>)"

text \<open>\<^verbatim>\<open>(int)std::round(r)\<close>: nearest integer, halfway cases away from zero.\<close>

definition c_round :: "real \<Rightarrow> int" where
  "c_round r = (if 0 \<le> r then \<lfloor>r + 1 / 2\<rfloor> else \<lceil>r - 1 / 2\<rceil>)"

text \<open>
  Rounding to a binary floating-point format with \<open>p\<close> significant bits (IEEE 754,
  round to nearest, ties to even): \<open>x\<close> lies in \<open>[2\<^sup>e, 2\<^sup>e\<^sup>+\<^sup>1)\<close>, where the numbers of
  the format are the multiples of \<open>2\<^sup>e\<^sup>+\<^sup>1\<^sup>-\<^sup>p\<close>. The exponent range is not modelled: the
  values rounded here are quotients, products and sums of pixel coordinates and image
  sizes, far from the overflow and underflow thresholds of either format. Every
  operation is rounded once, to the format of its operands (no fused multiply-add, no
  excess precision).
\<close>

definition round_even :: "real \<Rightarrow> int" where
  "round_even y =
     (let f = \<lfloor>y\<rfloor>
      in if y - real_of_int f < 1 / 2 then f
         else if 1 / 2 < y - real_of_int f then f + 1
         else if even f then f else f + 1)"

definition float_round :: "nat \<Rightarrow> real \<Rightarrow> real" where
  "float_round p x =
     (if x = 0 then 0
      else let e = \<lfloor>log 2 \<bar>x\<bar>\<rfloor>;
               ulp = 2 powr real_of_int (e + 1 - int p)
           in real_of_int (round_even (x / ulp)) * ulp)"

definition f32 :: "real \<Rightarrow> real" where
  "f32 = float_round 24"

definition f64 :: "real \<Rightarrow> real" where
  "f64 = float_round 53"

text \<open>
  For the evaluation of a rounding: \<open>x\<close> has \<open>p\<close> significant bits before its \<open>k\<close>-th
  binary digit behind the point, and \<open>x\<close> rounded at that digit.
\<close>

definition in_binade :: "nat \<Rightarrow> nat \<Rightarrow> real \<Rightarrow> bool" where
  "in_binade p k x = (2 ^ (p - 1) \<le> \<bar>x\<bar> * 2 ^ k \<and> \<bar>x\<bar> * 2 ^ k < 2 ^ p)"

definition round_to :: "nat \<Rightarrow> real \<Rightarrow> real" where
  "round_to k x = real_of_int (round_even (x * 2 ^ k)) / 2 ^ k"

text \<open>
  A \<^verbatim>\<open>for\<close> loop over the values \<open>xs\<close> of its counter, threading the variables the body
  updates; a fault in the body ends the loop.
\<close>

primrec for_each :: "('a \<Rightarrow> 's \<Rightarrow> 's option) \<Rightarrow> 'a list \<Rightarrow> 's \<Rightarrow> 's option" where
  "for_each body [] st = Some st"
| "for_each body (a # as) st = Option.bind (body a st) (for_each body as)"

text \<open>The values of the counter of \<^verbatim>\<open>for (int i = start; i < stop; i += step)\<close>.\<close>

function range_step :: "int \<Rightarrow> int \<Rightarrow> int \<Rightarrow> int list" where
  "range_step i stop step =
     (if i < stop \<and> 0 < step then i # range_step (i + step) stop step else [])"
  by pat_completeness auto
termination
  by (relation "measure (\<lambda>(i, stop, step). nat (stop - i))") auto

declare range_step.simps [simp del]

text \<open>
  \<^verbatim>\<open>std::min_element\<close> and \<^verbatim>\<open>std::max_element\<close> return the position of the first
  smallest (largest) element: the scan keeps its current choice unless a later element is
  strictly smaller (larger) under the comparison. On an empty range they return its end,
  position 0.
\<close>

primrec min_element_loop :: "('a \<Rightarrow> 'a \<Rightarrow> bool) \<Rightarrow> 'a list \<Rightarrow> nat \<Rightarrow> 'a \<Rightarrow> nat \<Rightarrow> nat" where
  "min_element_loop cmp [] i smallest si = si"
| "min_element_loop cmp (a # as) i smallest si =
     (if cmp a smallest then min_element_loop cmp as (Suc i) a i
      else min_element_loop cmp as (Suc i) smallest si)"

definition min_element :: "('a \<Rightarrow> 'a \<Rightarrow> bool) \<Rightarrow> 'a list \<Rightarrow> nat" where
  "min_element cmp v = (case v of [] \<Rightarrow> 0 | a # as \<Rightarrow> min_element_loop cmp as 1 a 0)"

primrec max_element_loop :: "('a \<Rightarrow> 'a \<Rightarrow> bool) \<Rightarrow> 'a list \<Rightarrow> nat \<Rightarrow> 'a \<Rightarrow> nat \<Rightarrow> nat" where
  "max_element_loop cmp [] i largest li = li"
| "max_element_loop cmp (a # as) i largest li =
     (if cmp largest a then max_element_loop cmp as (Suc i) a i
      else max_element_loop cmp as (Suc i) largest li)"

definition max_element :: "('a \<Rightarrow> 'a \<Rightarrow> bool) \<Rightarrow> 'a list \<Rightarrow> nat" where
  "max_element cmp v = (case v of [] \<Rightarrow> 0 | a # as \<Rightarrow> max_element_loop cmp as 1 a 0)"

subsection \<open>OpenCV\<close>

text \<open>\<^verbatim>\<open>cv::Point\<close>, fields \<^verbatim>\<open>x\<close> and \<^verbatim>\<open>y\<close>.\<close>

datatype Point = Point (px: int) (py: int)

text \<open>
  \<^verbatim>\<open>p2 - p1\<close> and \<^verbatim>\<open>cv::norm\<close> on points, as \<^verbatim>\<open>opencv2/core/types.hpp\<close> defines them:
  \<^verbatim>\<open>std::sqrt((double)pt.x*pt.x + (double)pt.y*pt.y)\<close>.
\<close>

definition Point_minus :: "Point \<Rightarrow> Point \<Rightarrow> Point" where
  "Point_minus a b = Point (px a - px b) (py a - py b)"

definition cv_norm :: "Point \<Rightarrow> real" where
  "cv_norm p =
     f64 (sqrt (f64 (f64 (real_of_int (px p) * real_of_int (px p)) +
                     f64 (real_of_int (py p) * real_of_int (py p)))))"

datatype Interpolation = INTER_NEAREST | INTER_LINEAR | INTER_CUBIC | INTER_AREA

datatype ColorConversion =
  COLOR_BGR2GRAY | COLOR_RGBA2BGR | COLOR_GRAY2BGR | COLOR_BGR2HSV | COLOR_BGR2Lab

datatype MorphShape = MORPH_RECT | MORPH_ELLIPSE

text \<open>A kernel argument: \<^verbatim>\<open>cv::Mat()\<close>, or \<^verbatim>\<open>getStructuringElement(shape, Size(w, h))\<close>.\<close>

datatype Kernel = DefaultKernel | StructuringElement MorphShape int int

datatype MorphType = MORPH_CLOSE | MORPH_OPEN

datatype ThresholdFlag = THRESH_BINARY | THRESH_BINARY_INV | THRESH_OTSU

datatype NormType = NORM_MINMAX

datatype MatType = CV_8UC1 | CV_32FC1

text \<open>
  The library calls of the code, one field each. \<open>rows\<close>, \<open>cols\<close>, \<open>channels\<close>,
  \<open>at_float\<close> and \<open>at_Vec3b\<close> read a matrix; every other field returns the matrix (or
  the contours, or the number) that the call produces.
  \<^item> \<open>setTo_rows m a b\<close> is \<^verbatim>\<open>m.rowRange(a, b).setTo(0)\<close>, likewise \<open>setTo_cols\<close>;
  \<^item> \<open>findContours\<close> is called with \<^verbatim>\<open>RETR_EXTERNAL\<close> and \<^verbatim>\<open>CHAIN_APPROX_SIMPLE\<close>;
  \<^item> \<open>Sobel m dx dy\<close> with depth \<^verbatim>\<open>CV_32F\<close>; \<open>pyrDown\<close> and \<open>pyrUp\<close> take the size
    \<open>(width, height)\<close>;
  \<^item> \<open>mixChannels m c\<close> copies channel \<open>c\<close> of \<open>m\<close> into a single-channel matrix;
  \<^item> \<open>compare_ge m v\<close> is the matrix expression \<^verbatim>\<open>m >= v\<close>;
  \<^item> \<open>morphologyEx m op kernel iterations\<close>, \<open>GaussianBlur m ksize sigma\<close>;
  \<^item> \<open>Mat_32FC1 h w f\<close> is the \<open>h\<close> by \<open>w\<close> matrix of floats with \<open>f y x\<close> at row \<open>y\<close>,
    column \<open>x\<close>;
  \<^item> \<open>CLAHE_apply clipLimit tileGridSize m\<close> is \<^verbatim>\<open>createCLAHE(...)->apply(m, ...)\<close>.

  The last two fields are \<^verbatim>\<open>std::sort\<close> with a comparison, at its two call sites: on the
  contours of a mask and on the vector of candidates, whose element type \<open>'c\<close> is the
  record \<open>Candidate\<close> below.
\<close>

record ('m, 'c) cv =
  rows :: "'m \<Rightarrow> int"
  cols :: "'m \<Rightarrow> int"
  channels :: "'m \<Rightarrow> int"
  at_float :: "'m \<Rightarrow> int \<Rightarrow> int \<Rightarrow> real"
  at_Vec3b :: "'m \<Rightarrow> int \<Rightarrow> int \<Rightarrow> int \<times> int \<times> int"
  Mat_32FC1 :: "int \<Rightarrow> int \<Rightarrow> (int \<Rightarrow> int \<Rightarrow> real) \<Rightarrow> 'm"
  setTo_rows :: "'m \<Rightarrow> int \<Rightarrow> int \<Rightarrow> 'm"
  setTo_cols :: "'m \<Rightarrow> int \<Rightarrow> int \<Rightarrow> 'm"
  resize :: "'m \<Rightarrow> real \<Rightarrow> real \<Rightarrow> Interpolation \<Rightarrow> 'm"
  cvtColor :: "'m \<Rightarrow> ColorConversion \<Rightarrow> 'm"
  Sobel :: "'m \<Rightarrow> int \<Rightarrow> int \<Rightarrow> 'm"
  magnitude :: "'m \<Rightarrow> 'm \<Rightarrow> 'm"
  pyrDown :: "'m \<Rightarrow> int \<times> int \<Rightarrow> 'm"
  pyrUp :: "'m \<Rightarrow> int \<times> int \<Rightarrow> 'm"
  mixChannels :: "'m \<Rightarrow> int \<Rightarrow> 'm"
  Canny :: "'m \<Rightarrow> real \<Rightarrow> real \<Rightarrow> int \<Rightarrow> 'm"
  dilate :: "'m \<Rightarrow> Kernel \<Rightarrow> 'm"
  erode :: "'m \<Rightarrow> Kernel \<Rightarrow> 'm"
  compare_ge :: "'m \<Rightarrow> int \<Rightarrow> 'm"
  medianBlur :: "'m \<Rightarrow> int \<Rightarrow> 'm"
  subtract :: "'m \<Rightarrow> 'm \<Rightarrow> 'm"
  threshold :: "'m \<Rightarrow> real \<Rightarrow> real \<Rightarrow> ThresholdFlag list \<Rightarrow> 'm"
  morphologyEx :: "'m \<Rightarrow> MorphType \<Rightarrow> Kernel \<Rightarrow> int \<Rightarrow> 'm"
  split :: "'m \<Rightarrow> 'm list"
  GaussianBlur :: "'m \<Rightarrow> int \<times> int \<Rightarrow> real \<Rightarrow> 'm"
  normalize :: "'m \<Rightarrow> real \<Rightarrow> real \<Rightarrow> NormType \<Rightarrow> 'm"
  convertTo :: "'m \<Rightarrow> MatType \<Rightarrow> 'm"
  bitwise_or :: "'m \<Rightarrow> 'm \<Rightarrow> 'm"
  CLAHE_apply :: "real \<Rightarrow> int \<times> int \<Rightarrow> 'm \<Rightarrow> 'm"
  findContours :: "'m \<Rightarrow> Point list list"
  contourArea :: "Point list \<Rightarrow> real"
  arcLength :: "Point list \<Rightarrow> bool \<Rightarrow> real"
  approxPolyDP :: "Point list \<Rightarrow> real \<Rightarrow> bool \<Rightarrow> Point list"
  isContourConvex :: "Point list \<Rightarrow> bool"
  sort_contours :: "(Point list \<Rightarrow> Point list \<Rightarrow> bool) \<Rightarrow> Point list list \<Rightarrow> Point list list"
  sort_candidates :: "('c \<Rightarrow> 'c \<Rightarrow> bool) \<Rightarrow> 'c list \<Rightarrow> 'c list"

text \<open>\<^verbatim>\<open>m.at<float>(y, x)\<close>: defined inside the matrix only.\<close>

definition Mat_at :: "('m, 'c) cv \<Rightarrow> 'm \<Rightarrow> int \<Rightarrow> int \<Rightarrow> real option" where
  "Mat_at L m y x =
     (if 0 \<le> y \<and> y < rows L m \<and> 0 \<le> x \<and> x < cols L m then Some (at_float L m y x) else None)"

text \<open>\<^verbatim>\<open>m.at<cv::Vec3b>(y, x)\<close>, likewise.\<close>

definition Mat_at_Vec3b :: "('m, 'c) cv \<Rightarrow> 'm \<Rightarrow> int \<Rightarrow> int \<Rightarrow> (int \<times> int \<times> int) option" where
  "Mat_at_Vec3b L m y x =
     (if 0 \<le> y \<and> y < rows L m \<and> 0 \<le> x \<and> x < cols L m then Some (at_Vec3b L m y x) else None)"

subsection \<open>Geometry helpers\<close>

definition angleCos :: "Point \<Rightarrow> Point \<Rightarrow> Point \<Rightarrow> real option" where
  "angleCos p1 p2 p0 =
     (let dx1 = real_of_int (px p1 - px p0); dy1 = real_of_int (py p1 - py p0);
          dx2 = real_of_int (px p2 - px p0); dy2 = real_of_int (py p2 - py p0)
      in fdiv (dx1 * dx2 + dy1 * dy2)
              (sqrt ((dx1 * dx1 + dy1 * dy1) * (dx2 * dx2 + dy2 * dy2) + 1 / 10 ^ 10)))"

text \<open>
  The loop of \<open>orderPoints\<close> reads \<^verbatim>\<open>pts[0]\<close> to \<^verbatim>\<open>pts[3]\<close>; the four slots of the
  result are then filled one by one.
\<close>

definition orderPoints :: "Point list \<Rightarrow> Point list option" where
  "orderPoints pts =
     (if length pts < 4 then None
      else
        let s = map (\<lambda>p. px p + py p) (take 4 pts);
            d = map (\<lambda>p. py p - px p) (take 4 pts)
        in do {
          o0 \<leftarrow> vec_at pts (min_element (<) s);
          o2 \<leftarrow> vec_at pts (max_element (<) s);
          o1 \<leftarrow> vec_at pts (min_element (<) d);
          o3 \<leftarrow> vec_at pts (max_element (<) d);
          Some [o0, o1, o2, o3]
        })"

subsection \<open>Quad validation\<close>

text \<open>The border test of one corner, and the counting loop over the corners.\<close>

definition onBorder :: "int \<Rightarrow> int \<Rightarrow> int \<Rightarrow> Point \<Rightarrow> bool" where
  "onBorder borderMargin imgW imgH p =
     (px p \<le> borderMargin \<or> py p \<le> borderMargin \<or>
      px p \<ge> imgW - borderMargin - 1 \<or> py p \<ge> imgH - borderMargin - 1)"

primrec borderCount_loop :: "int \<Rightarrow> int \<Rightarrow> int \<Rightarrow> Point list \<Rightarrow> int \<Rightarrow> int" where
  "borderCount_loop borderMargin imgW imgH [] borderCount = borderCount"
| "borderCount_loop borderMargin imgW imgH (p # ps) borderCount =
     borderCount_loop borderMargin imgW imgH ps
       (if onBorder borderMargin imgW imgH p then borderCount + 1 else borderCount)"

text \<open>The body of the angle loop, for the counter \<open>j\<close> and the running \<open>maxCos\<close>.\<close>

definition maxCos_step :: "Point list \<Rightarrow> nat \<Rightarrow> real \<Rightarrow> real option" where
  "maxCos_step quad j maxCos = do {
     p1 \<leftarrow> vec_at quad (j mod 4);
     p2 \<leftarrow> vec_at quad (j - 2);
     p0 \<leftarrow> vec_at quad (j - 1);
     c \<leftarrow> angleCos p1 p2 p0;
     Some (if \<bar>c\<bar> > maxCos then \<bar>c\<bar> else maxCos)
   }"

definition isGoodQuad :: "('m, 'c) cv \<Rightarrow> Point list \<Rightarrow> real \<Rightarrow> int \<Rightarrow> int \<Rightarrow> bool option" where
  "isGoodQuad L quad imgArea imgW imgH =
     (let area = contourArea L quad in
      if area < imgArea * (5 / 100) \<or> area > imgArea * (85 / 100) then Some False
      else if \<not> isContourConvex L quad then Some False
      else
        let borderMargin = 5;
            borderCount = borderCount_loop borderMargin imgW imgH quad 0
        in if borderCount \<ge> 3 then Some False
           else do {
             maxCos \<leftarrow> for_each (maxCos_step quad) [2 ..< 5] 0;
             Some (maxCos < 4 / 10)
           })"

text \<open>
  Average gradient magnitude along the four edges of a quad. \<^verbatim>\<open>t\<close> is a \<^verbatim>\<open>float\<close>, so
  the position \<^verbatim>\<open>p1.x + t * (p2.x - p1.x)\<close> is computed in \<^verbatim>\<open>float\<close>: the integers are
  converted, the product and the sum are rounded, and the sum is truncated.
\<close>

definition sample_step :: "('m, 'c) cv \<Rightarrow> 'm \<Rightarrow> Point \<Rightarrow> Point \<Rightarrow> int \<Rightarrow> nat \<Rightarrow> real \<times> int \<Rightarrow> (real \<times> int) option" where
  "sample_step L gradMag p1 p2 nSamples s acc = do {
     t \<leftarrow> map_option f32 (fdiv (f32 (real s)) (f32 (real_of_int nSamples)));
     let x = c_trunc (f32 (f32 (real_of_int (px p1)) + f32 (t * f32 (real_of_int (px p2 - px p1)))));
         y = c_trunc (f32 (f32 (real_of_int (py p1)) + f32 (t * f32 (real_of_int (py p2 - py p1)))))
     in if x \<ge> 0 \<and> x < cols L gradMag \<and> y \<ge> 0 \<and> y < rows L gradMag
        then do {
          g \<leftarrow> Mat_at L gradMag y x;
          Some (fst acc + g, snd acc + 1)
        }
        else Some acc
   }"

definition edge_step :: "('m, 'c) cv \<Rightarrow> 'm \<Rightarrow> Point list \<Rightarrow> nat \<Rightarrow> real \<times> int \<Rightarrow> (real \<times> int) option" where
  "edge_step L gradMag quad i acc = do {
     p1 \<leftarrow> vec_at quad i;
     p2 \<leftarrow> vec_at quad ((i + 1) mod 4);
     let edgeLen = cv_norm (Point_minus p2 p1);
         nSamples = max 10 (c_trunc edgeLen)
     in for_each (sample_step L gradMag p1 p2 nSamples) [0 ..< nat nSamples] acc
   }"

definition computeEdgeScore :: "('m, 'c) cv \<Rightarrow> Point list \<Rightarrow> 'm \<Rightarrow> real option" where
  "computeEdgeScore L quad gradMag = do {
     (totalGrad, numSamples) \<leftarrow> for_each (edge_step L gradMag quad) [0 ..< 4] (0, 0);
     if numSamples > 0 then fdiv totalGrad (real_of_int numSamples) else Some 0
   }"

subsection \<open>Candidate collection\<close>

record Candidate =
  quad :: "Point list"
  area :: real
  edgeScore :: real

text \<open>
  The body of the two nested loops of \<open>collectQuads\<close>, for one tolerance \<open>eps\<close> and one
  contour index \<open>i\<close>: a polygon is appended only if it has four vertices and passes
  \<open>isGoodQuad\<close> (\<^verbatim>\<open>&&\<close> evaluates the second test only after the first).
\<close>

definition collectQuads_step ::
  "('m, 'c) cv \<Rightarrow> 'm \<Rightarrow> real \<Rightarrow> 'm \<Rightarrow> Point list list \<Rightarrow> real \<Rightarrow> nat \<Rightarrow> Candidate list \<Rightarrow> Candidate list option" where
  "collectQuads_step L clean imgArea gradMag contours eps i candidates = do {
     contour \<leftarrow> vec_at contours i;
     let peri = arcLength L contour True;
         approx = approxPolyDP L contour (eps * peri) True
     in if length approx = 4
        then do {
          good \<leftarrow> isGoodQuad L approx imgArea (cols L clean) (rows L clean);
          if good
          then do {
            score \<leftarrow> computeEdgeScore L approx gradMag;
            Some (candidates @ [\<lparr>quad = approx, area = contourArea L approx, edgeScore = score\<rparr>])
          }
          else Some candidates
        }
        else Some candidates
   }"

text \<open>
  \<^verbatim>\<open>m.rowRange(a, b).setTo(0)\<close> and \<^verbatim>\<open>m.colRange(a, b).setTo(0)\<close>. The constructor of the
  sub-matrix checks \<^verbatim>\<open>0 <= a && a <= b && b <= m.rows\<close> (or \<^verbatim>\<open>m.cols\<close>) by \<^verbatim>\<open>CV_Assert\<close>
  and raises a \<^verbatim>\<open>cv::Exception\<close> otherwise, which nothing in the program catches.
\<close>

definition rowRange_setTo :: "('m, 'c) cv \<Rightarrow> 'm \<Rightarrow> int \<Rightarrow> int \<Rightarrow> 'm option" where
  "rowRange_setTo L m a b =
     (if 0 \<le> a \<and> a \<le> b \<and> b \<le> rows L m then Some (setTo_rows L m a b) else None)"

definition colRange_setTo :: "('m, 'c) cv \<Rightarrow> 'm \<Rightarrow> int \<Rightarrow> int \<Rightarrow> 'm option" where
  "colRange_setTo L m a b =
     (if 0 \<le> a \<and> a \<le> b \<and> b \<le> cols L m then Some (setTo_cols L m a b) else None)"

text \<open>Zero out borders to prevent frame-spanning contours (on a clone of the mask).\<close>

definition clean_borders :: "('m, 'c) cv \<Rightarrow> 'm \<Rightarrow> 'm option" where
  "clean_borders L edges = do {
     let border = 5;
     clean1 \<leftarrow> rowRange_setTo L edges 0 border;
     clean2 \<leftarrow> rowRange_setTo L clean1 (rows L clean1 - border) (rows L clean1);
     clean3 \<leftarrow> colRange_setTo L clean2 0 border;
     colRange_setTo L clean3 (cols L clean3 - border) (cols L clean3)
   }"

text \<open>Extract quad candidates from a binary/edge image into the list.\<close>

definition collectQuads :: "('m, 'c) cv \<Rightarrow> 'm \<Rightarrow> real \<Rightarrow> 'm \<Rightarrow> Candidate list \<Rightarrow> Candidate list option" where
  "collectQuads L edges imgArea gradMag candidates = do {
     clean \<leftarrow> clean_borders L edges;
     let contours = sort_contours L (\<lambda>a b. contourArea L a > contourArea L b) (findContours L clean);
         limit = min (int (length contours)) 20
     in for_each
          (\<lambda>eps. for_each (collectQuads_step L clean imgArea gradMag contours eps) [0 ..< nat limit])
          [2 / 100, 4 / 100] candidates
   }"

subsection \<open>Detection strategies\<close>

text \<open>
  Strategy 1: per-channel Canny and binary thresholds. \<^verbatim>\<open>gray0\<close> holds channel \<open>c\<close> of
  the smoothed image; the levels are \<^verbatim>\<open>l * 255 / 7\<close> in integer arithmetic.
\<close>

definition findSquaresMultiChannel :: "('m, 'c) cv \<Rightarrow> 'm \<Rightarrow> real \<Rightarrow> 'm \<Rightarrow> Candidate list \<Rightarrow> Candidate list option" where
  "findSquaresMultiChannel L img imgArea gradMag candidates =
     (let pyr = pyrDown L img (cols L img div 2, rows L img div 2);
          filtered = pyrUp L pyr (cols L img, rows L img)
      in for_each
           (\<lambda>c cands.
              let gray0 = mixChannels L filtered c;
                  binary = dilate L (Canny L gray0 20 80 3) DefaultKernel
              in do {
                cands' \<leftarrow> collectQuads L binary imgArea gradMag cands;
                for_each (\<lambda>l. collectQuads L (compare_ge L gray0 (l * 255 div 7)) imgArea gradMag)
                  (range_step 1 7 1) cands'
              })
           (range_step 0 (channels L filtered) 1) candidates)"

text \<open>Strategy 2: morphological gradient.\<close>

definition findByMorphGradient :: "('m, 'c) cv \<Rightarrow> 'm \<Rightarrow> real \<Rightarrow> 'm \<Rightarrow> Candidate list \<Rightarrow> Candidate list option" where
  "findByMorphGradient L img imgArea gradMag candidates =
     (let gray = (if channels L img \<ge> 3 then cvtColor L img COLOR_BGR2GRAY else img)
      in for_each
           (\<lambda>kSize.
              let blurred = medianBlur L gray 7;
                  elem = StructuringElement MORPH_RECT kSize kSize;
                  dilated = dilate L blurred elem;
                  eroded = erode L blurred elem;
                  gradient = subtract L dilated eroded;
                  binary = threshold L gradient 0 255 [THRESH_BINARY, THRESH_OTSU];
                  closeElem = StructuringElement MORPH_RECT 3 3;
                  binary' = morphologyEx L binary MORPH_CLOSE closeElem 2
              in collectQuads L binary' imgArea gradMag)
           [3, 5] candidates)"

text \<open>Strategy 3: HSV saturation, both directions. \<^verbatim>\<open>ch[1]\<close> is a read of the vector.\<close>

definition findBySaturation :: "('m, 'c) cv \<Rightarrow> 'm \<Rightarrow> real \<Rightarrow> 'm \<Rightarrow> Candidate list \<Rightarrow> Candidate list option" where
  "findBySaturation L bgr imgArea gradMag candidates = do {
     let hsv = cvtColor L bgr COLOR_BGR2HSV;
     let ch = split L hsv;
     ch1 \<leftarrow> vec_at ch 1;
     let sat = GaussianBlur L ch1 (7, 7) 0;
     let tInv = threshold L sat 0 255 [THRESH_BINARY_INV, THRESH_OTSU];
     let tNorm = threshold L sat 0 255 [THRESH_BINARY, THRESH_OTSU];
     let kClose = StructuringElement MORPH_RECT 9 9;
     for_each
       (\<lambda>t.
          let cleaned = morphologyEx L t MORPH_CLOSE kClose 3;
              cleaned' = morphologyEx L cleaned MORPH_OPEN (StructuringElement MORPH_RECT 5 5) 1
          in collectQuads L cleaned' imgArea gradMag)
       [tInv, tNorm] candidates
   }"

text \<open>
  Strategy 4: background colour distance. The two sampling loops walk the top and bottom
  rows and the left and right columns at stride 2, adding the three channels of both
  pixels to the sums and 2 to \<open>n\<close>.
\<close>

definition border_sample :: "('m, 'c) cv \<Rightarrow> 'm \<Rightarrow> int \<times> int \<Rightarrow> int \<times> int \<Rightarrow> real \<times> real \<times> real \<times> int \<Rightarrow> (real \<times> real \<times> real \<times> int) option" where
  "border_sample L bgr yx0 yx1 acc = do {
     p0 \<leftarrow> Mat_at_Vec3b L bgr (fst yx0) (snd yx0);
     p1 \<leftarrow> Mat_at_Vec3b L bgr (fst yx1) (snd yx1);
     (case (p0, p1, acc) of ((b0, g0, r0), (b1, g1, r1), (bSum, gSum, rSum, n)) \<Rightarrow>
        Some (bSum + real_of_int (b0 + b1), gSum + real_of_int (g0 + g1),
              rSum + real_of_int (r0 + r1), n + 2))
   }"

definition findByColorDistance :: "('m, 'c) cv \<Rightarrow> 'm \<Rightarrow> real \<Rightarrow> 'm \<Rightarrow> Candidate list \<Rightarrow> Candidate list option" where
  "findByColorDistance L bgr imgArea gradMag candidates = do {
     let h = rows L bgr;
     let w = cols L bgr;
     acc \<leftarrow> for_each (\<lambda>x. border_sample L bgr (0, x) (h - 1, x)) (range_step 0 w 2) (0, 0, 0, 0);
     acc' \<leftarrow> for_each (\<lambda>y. border_sample L bgr (y, 0) (y, w - 1)) (range_step 1 (h - 1) 2) acc;
     (case acc' of (bSum, gSum, rSum, n) \<Rightarrow> do {
        bM \<leftarrow> fdiv bSum (real_of_int n);
        gM \<leftarrow> fdiv gSum (real_of_int n);
        rM \<leftarrow> fdiv rSum (real_of_int n);
        let dist = Mat_32FC1 L h w
              (\<lambda>y x. case at_Vec3b L bgr y x of (b, g, r) \<Rightarrow>
                 (let db = real_of_int b - bM; dg = real_of_int g - gM; dr = real_of_int r - rM
                  in sqrt (db * db + dg * dg + dr * dr)));
        let distU8 = convertTo L (normalize L dist 0 255 NORM_MINMAX) CV_8UC1;
        let binary = threshold L distU8 0 255 [THRESH_BINARY, THRESH_OTSU];
        let kClose = StructuringElement MORPH_RECT 9 9;
        let binary' = morphologyEx L binary MORPH_CLOSE kClose 3;
        collectQuads L binary' imgArea gradMag candidates
      })
   }"

text \<open>Strategy 5: Lab L/a*/b* edges; the three channels are read in every round.\<close>

definition findByLabEdges :: "('m, 'c) cv \<Rightarrow> 'm \<Rightarrow> real \<Rightarrow> 'm \<Rightarrow> Candidate list \<Rightarrow> Candidate list option" where
  "findByLabEdges L bgr imgArea gradMag candidates =
     (let lab = cvtColor L bgr COLOR_BGR2Lab;
          ch = split L lab
      in for_each
           (\<lambda>lo cands. do {
              ch0 \<leftarrow> vec_at ch 0;
              ch1 \<leftarrow> vec_at ch 1;
              ch2 \<leftarrow> vec_at ch 2;
              let l = GaussianBlur L ch0 (5, 5) 0;
              let a = GaussianBlur L ch1 (5, 5) 0;
              let b = GaussianBlur L ch2 (5, 5) 0;
              let eL = Canny L l (real_of_int lo) (real_of_int (lo * 3)) 3;
              let eA = Canny L a (real_of_int lo) (real_of_int (lo * 3)) 3;
              let eB = Canny L b (real_of_int lo) (real_of_int (lo * 3)) 3;
              let combined = bitwise_or L (bitwise_or L eA eB) eL;
              let combined' = dilate L combined (StructuringElement MORPH_ELLIPSE 5 5);
              collectQuads L combined' imgArea gradMag cands
            })
           [10, 25, 45] candidates)"

text \<open>Strategy 6: CLAHE-enhanced Canny.\<close>

definition findByCLAHECanny :: "('m, 'c) cv \<Rightarrow> 'm \<Rightarrow> real \<Rightarrow> 'm \<Rightarrow> Candidate list \<Rightarrow> Candidate list option" where
  "findByCLAHECanny L bgr imgArea gradMag candidates =
     (let gray = (if channels L bgr \<ge> 3 then cvtColor L bgr COLOR_BGR2GRAY else bgr);
          enhanced = CLAHE_apply L 3 (8, 8) gray
      in for_each
           (\<lambda>lo.
              let blurred = GaussianBlur L enhanced (5, 5) 0;
                  edges = Canny L blurred (real_of_int lo) (real_of_int lo * (25 / 10)) 3;
                  edges' = dilate L edges (StructuringElement MORPH_ELLIPSE 5 5)
              in collectQuads L edges' imgArea gradMag)
           [20, 40, 70] candidates)"

subsection \<open>Main pipeline\<close>

text \<open>
  \<open>detectDocument\<close> in its four stages. First: resize to workable resolution; the result
  is the working image \<^verbatim>\<open>small\<close> and \<^verbatim>\<open>scale\<close>. \<^verbatim>\<open>bgr.clone()\<close> is a copy of the
  same value.
\<close>

definition TARGET :: int where
  "TARGET = 600"

definition detectDocument_resize :: "('m, 'c) cv \<Rightarrow> 'm \<Rightarrow> ('m \<times> real) option" where
  "detectDocument_resize L bgr =
     (if max (rows L bgr) (cols L bgr) > TARGET
      then do {
        scale \<leftarrow> map_option f64 (fdiv (real_of_int TARGET) (real_of_int (max (rows L bgr) (cols L bgr))));
        Some (resize L bgr scale scale INTER_AREA, scale)
      }
      else Some (bgr, 1))"

text \<open>Second: the gradient magnitude map, used to score all candidates.\<close>

definition detectDocument_gradMag :: "('m, 'c) cv \<Rightarrow> 'm \<Rightarrow> 'm" where
  "detectDocument_gradMag L small =
     (let gray = cvtColor L small COLOR_BGR2GRAY;
          gradX = Sobel L gray 1 0;
          gradY = Sobel L gray 0 1
      in magnitude L gradX gradY)"

text \<open>Third: all valid quad candidates from all strategies, in one list.\<close>

definition detectDocument_candidates :: "('m, 'c) cv \<Rightarrow> 'm \<Rightarrow> real \<Rightarrow> 'm \<Rightarrow> Candidate list option" where
  "detectDocument_candidates L small imgArea gradMag = do {
     c1 \<leftarrow> findSquaresMultiChannel L small imgArea gradMag [];
     c2 \<leftarrow> findByMorphGradient L small imgArea gradMag c1;
     c3 \<leftarrow> findBySaturation L small imgArea gradMag c2;
     c4 \<leftarrow> findByColorDistance L small imgArea gradMag c3;
     c5 \<leftarrow> findByLabEdges L small imgArea gradMag c4;
     findByCLAHECanny L small imgArea gradMag c5
   }"

text \<open>A loop that rewrites every element of a vector.\<close>

primrec map_each :: "('a \<Rightarrow> 'b option) \<Rightarrow> 'a list \<Rightarrow> 'b list option" where
  "map_each f [] = Some []"
| "map_each f (a # as) = do { b \<leftarrow> f a; bs \<leftarrow> map_each f as; Some (b # bs) }"

text \<open>The bodies of the rescoring loop and of the loop that scales a corner back.\<close>

definition rescore :: "real \<Rightarrow> Candidate \<Rightarrow> Candidate option" where
  "rescore imgArea c = do {
     areaRatio \<leftarrow> fdiv (area c) imgArea;
     Some (c\<lparr>edgeScore := edgeScore c * areaRatio\<rparr>)
   }"

definition scaleBack :: "real \<Rightarrow> Point \<Rightarrow> Point option" where
  "scaleBack scale pt = do {
     x \<leftarrow> map_option f64 (fdiv (real_of_int (px pt)) scale);
     y \<leftarrow> map_option f64 (fdiv (real_of_int (py pt)) scale);
     Some (Point (c_round x) (c_round y))
   }"

text \<open>
  Fourth: selection. \<^verbatim>\<open>best\<close> is a reference to an element of the vector
  \<^verbatim>\<open>candidates\<close>, that is, a position \<open>best\<close> in it. The vector is then sorted in place
  (for the log of the top five), and \<^verbatim>\<open>best.quad\<close> is read afterwards: it is the quad
  that the sorted vector holds at that position.
\<close>

definition detectDocument_select :: "('m, Candidate) cv \<Rightarrow> real \<Rightarrow> real \<Rightarrow> Candidate list \<Rightarrow> Point list option" where
  "detectDocument_select L imgArea scale candidates =
     (if candidates = [] then Some []
      else do {
        rescored \<leftarrow> map_each (rescore imgArea) candidates;
        let best = max_element (\<lambda>a b. edgeScore a < edgeScore b) rescored;
            sorted = sort_candidates L (\<lambda>a b. edgeScore a > edgeScore b) rescored
        in do {
          c \<leftarrow> vec_at sorted best;
          result \<leftarrow> map_each (scaleBack scale) (quad c);
          orderPoints result
        }
      })"

definition detectDocument :: "('m, Candidate) cv \<Rightarrow> 'm \<Rightarrow> Point list option" where
  "detectDocument L bgr = do {
     (small, scale) \<leftarrow> detectDocument_resize L bgr;
     let imgArea = real_of_int (rows L small * cols L small);
         gradMag = detectDocument_gradMag L small
     in do {
       candidates \<leftarrow> detectDocument_candidates L small imgArea gradMag;
       detectDocument_select L imgArea scale candidates
     }
   }"

subsection \<open>JNI\<close>

text \<open>A \<^verbatim>\<open>jfloatArray\<close>: \<^verbatim>\<open>nullptr\<close> or the array of eight floats.\<close>

datatype jfloatArray = nullptr | FloatArray "real list"

definition quadToJni :: "Point list \<Rightarrow> jfloatArray option" where
  "quadToJni q =
     (if q = [] then Some nullptr
      else do {
        p0 \<leftarrow> vec_at q 0;
        p1 \<leftarrow> vec_at q 1;
        p2 \<leftarrow> vec_at q 2;
        p3 \<leftarrow> vec_at q 3;
        Some (FloatArray (map real_of_int
          [px p0, py p0, px p1, py p1, px p2, py p2, px p3, py p3]))
      })"

definition findDocumentCorners :: "('m, Candidate) cv \<Rightarrow> 'm \<Rightarrow> jfloatArray option" where
  "findDocumentCorners L frame =
     (let bgr = (if channels L frame = 4 then cvtColor L frame COLOR_RGBA2BGR
                 else if channels L frame = 3 then frame
                 else cvtColor L frame COLOR_GRAY2BGR)
      in do { q \<leftarrow> detectDocument L bgr; quadToJni q })"

definition findDocumentCornersColor :: "('m, Candidate) cv \<Rightarrow> 'm \<Rightarrow> jfloatArray option" where
  "findDocumentCornersColor L frame =
     (let bgr = (if channels L frame = 4 then cvtColor L frame COLOR_RGBA2BGR
                 else if channels L frame = 3 then frame
                 else cvtColor L frame COLOR_GRAY2BGR)
      in do { q \<leftarrow> detectDocument L bgr; quadToJni q })"

section \<open>The specification's notions\<close>

text \<open>
  Definitions written from the specification's wording, to be compared with the code
  above. First the edge-support score: each edge contributes
  \<open>max(10, edge length in pixels)\<close> evenly spaced points, interpolated linearly and
  truncated to integer pixel coordinates; points outside the gradient map are skipped;
  the score is the mean gradient magnitude over the remaining points, or 0 without any.
  In \<open>spec_sample_point\<close> and \<open>spec_edge_samples\<close> the interpolation and the edge length
  are those of the wording, exact.
\<close>

definition spec_sample_point :: "Point \<Rightarrow> Point \<Rightarrow> int \<Rightarrow> nat \<Rightarrow> Point" where
  "spec_sample_point p1 p2 n s =
     Point (c_trunc (real_of_int (px p1) + real s / real_of_int n * real_of_int (px p2 - px p1)))
           (c_trunc (real_of_int (py p1) + real s / real_of_int n * real_of_int (py p2 - py p1)))"

definition spec_edge_samples :: "Point \<Rightarrow> Point \<Rightarrow> Point list" where
  "spec_edge_samples p1 p2 =
     (let n = max 10 \<lfloor>sqrt (real_of_int ((px p2 - px p1)\<^sup>2 + (py p2 - py p1)\<^sup>2))\<rfloor>
      in map (spec_sample_point p1 p2 n) [0 ..< nat n])"

definition spec_quad_samples :: "Point list \<Rightarrow> Point list" where
  "spec_quad_samples q = concat (map (\<lambda>i. spec_edge_samples (q ! i) (q ! ((i + 1) mod 4))) [0 ..< 4])"

definition spec_in_map :: "('m, 'c) cv \<Rightarrow> 'm \<Rightarrow> Point \<Rightarrow> bool" where
  "spec_in_map L gradMag p = (0 \<le> px p \<and> px p < cols L gradMag \<and> 0 \<le> py p \<and> py p < rows L gradMag)"

definition spec_edgeScore :: "('m, 'c) cv \<Rightarrow> Point list \<Rightarrow> 'm \<Rightarrow> real" where
  "spec_edgeScore L q gradMag =
     (let valid = filter (spec_in_map L gradMag) (spec_quad_samples q)
      in if valid = [] then 0
         else sum_list (map (\<lambda>p. at_float L gradMag (py p) (px p)) valid) / real (length valid))"

text \<open>
  The same notions with the interpolation as the program carries it out: \<open>s / n\<close>, the
  product with the coordinate difference and the sum with the start coordinate are each
  rounded to \<^verbatim>\<open>float\<close>, the edge length is the \<^verbatim>\<open>double\<close> that \<open>cv_norm\<close> returns.
\<close>

definition float_interpolate :: "int \<Rightarrow> int \<Rightarrow> int \<Rightarrow> nat \<Rightarrow> int" where
  "float_interpolate a b n s =
     c_trunc (f32 (f32 (real_of_int a) +
                   f32 (f32 (f32 (real s) / f32 (real_of_int n)) * f32 (real_of_int (b - a)))))"

definition float_sample_point :: "Point \<Rightarrow> Point \<Rightarrow> int \<Rightarrow> nat \<Rightarrow> Point" where
  "float_sample_point p1 p2 n s =
     Point (float_interpolate (px p1) (px p2) n s) (float_interpolate (py p1) (py p2) n s)"

definition float_edge_samples :: "Point \<Rightarrow> Point \<Rightarrow> Point list" where
  "float_edge_samples p1 p2 =
     (let n = max 10 (c_trunc (cv_norm (Point_minus p2 p1)))
      in map (float_sample_point p1 p2 n) [0 ..< nat n])"

definition float_quad_samples :: "Point list \<Rightarrow> Point list" where
  "float_quad_samples q = concat (map (\<lambda>i. float_edge_samples (q ! i) (q ! ((i + 1) mod 4))) [0 ..< 4])"

definition float_edgeScore :: "('m, 'c) cv \<Rightarrow> Point list \<Rightarrow> 'm \<Rightarrow> real" where
  "float_edgeScore L q gradMag =
     (let valid = filter (spec_in_map L gradMag) (float_quad_samples q)
      in if valid = [] then 0
         else sum_list (map (\<lambda>p. at_float L gradMag (py p) (px p)) valid) / real (length valid))"

text \<open>
  The validity predicate: a corner lies within \<open>d\<close> pixels of an image border when its
  distance to the first or the last row or column is at most \<open>d\<close>.
\<close>

definition spec_within_border :: "int \<Rightarrow> int \<Rightarrow> int \<Rightarrow> Point \<Rightarrow> bool" where
  "spec_within_border d imgW imgH p =
     (px p \<le> d \<or> py p \<le> d \<or> imgW - 1 - px p \<le> d \<or> imgH - 1 - py p \<le> d)"

definition spec_valid_quad :: "('m, 'c) cv \<Rightarrow> real \<Rightarrow> int \<Rightarrow> int \<Rightarrow> Point list \<Rightarrow> bool" where
  "spec_valid_quad L imgArea imgW imgH q =
     (length q = 4 \<and>
      imgArea * (5 / 100) \<le> contourArea L q \<and> contourArea L q \<le> imgArea * (85 / 100) \<and>
      isContourConvex L q \<and>
      length (filter (spec_within_border 5 imgW imgH) q) < 3)"

text \<open>
  The cosine of the interior angle at corner \<open>k\<close> of a quad, from the two edge vectors
  that leave the corner.
\<close>

definition spec_corner_cos :: "Point list \<Rightarrow> nat \<Rightarrow> real" where
  "spec_corner_cos q k =
     (let p0 = q ! k; p1 = q ! ((k + 1) mod 4); p2 = q ! ((k + 3) mod 4);
          dx1 = real_of_int (px p1 - px p0); dy1 = real_of_int (py p1 - py p0);
          dx2 = real_of_int (px p2 - px p0); dy2 = real_of_int (py p2 - py p0)
      in (dx1 * dx2 + dy1 * dy2) /
         sqrt ((dx1 * dx1 + dy1 * dy1) * (dx2 * dx2 + dy2 * dy2) + 1 / 10 ^ 10))"

definition spec_corner_ok :: "Point list \<Rightarrow> nat \<Rightarrow> bool" where
  "spec_corner_ok q k = (\<bar>spec_corner_cos q k\<bar> < 4 / 10)"

text \<open>
  The combined score (edge score times area ratio), the scale of the specification
  (\<open>600 / max(width, height)\<close>, exact), and a corner mapped back to the original image
  as the program does it: each coordinate divided by the scale, the quotient a
  \<^verbatim>\<open>double\<close>, and rounded to the nearest integer.
\<close>

definition spec_combined :: "real \<Rightarrow> Candidate \<Rightarrow> Candidate" where
  "spec_combined imgArea c = c\<lparr>edgeScore := edgeScore c * (area c / imgArea)\<rparr>"


definition unscale :: "real \<Rightarrow> Point \<Rightarrow> Point" where
  "unscale scale pt =
     Point (c_round (f64 (real_of_int (px pt) / scale))) (c_round (f64 (real_of_int (py pt) / scale)))"

text \<open>What every candidate of the pool satisfies, whatever mask it came from.\<close>

definition pooled :: "('m, 'c) cv \<Rightarrow> real \<Rightarrow> 'm \<Rightarrow> Candidate \<Rightarrow> bool" where
  "pooled L imgArea gradMag c =
     (length (quad c) = 4 \<and> area c = contourArea L (quad c) \<and>
      imgArea * (5 / 100) \<le> area c \<and> area c \<le> imgArea * (85 / 100) \<and>
      isContourConvex L (quad c) \<and>
      edgeScore c = float_edgeScore L (quad c) gradMag)"

text \<open>
  The position that \<^verbatim>\<open>best\<close> refers to, and the candidate that is read through it
  after the sort.
\<close>

definition best_position :: "Candidate list \<Rightarrow> nat" where
  "best_position rescored = max_element (\<lambda>a b. edgeScore a < edgeScore b) rescored"

definition read_through_best :: "('m, Candidate) cv \<Rightarrow> real \<Rightarrow> Candidate list \<Rightarrow> Candidate" where
  "read_through_best L imgArea candidates =
     (let rescored = map (spec_combined imgArea) candidates
      in sort_candidates L (\<lambda>a b. edgeScore a > edgeScore b) rescored ! best_position rescored)"

text \<open>
  What the C++ standard guarantees of \<^verbatim>\<open>std::sort(first, last, comp)\<close>: the range holds
  the same elements as before, and no element is ordered by \<open>comp\<close> before an element that
  precedes it. \<open>std_sort_ok\<close> says so of the two sorts of the program.
\<close>

definition sorted_permutation :: "('a \<Rightarrow> 'a \<Rightarrow> bool) \<Rightarrow> 'a list \<Rightarrow> 'a list \<Rightarrow> bool" where
  "sorted_permutation cmp xs ys = (mset ys = mset xs \<and> sorted_wrt (\<lambda>a b. \<not> cmp b a) ys)"

definition std_sort_ok :: "('m, Candidate) cv \<Rightarrow> bool" where
  "std_sort_ok L =
     ((\<forall>contours. sorted_permutation (\<lambda>a b. contourArea L a > contourArea L b) contours
          (sort_contours L (\<lambda>a b. contourArea L a > contourArea L b) contours)) \<and>
      (\<forall>candidates. sorted_permutation (\<lambda>a b. edgeScore a > edgeScore b) candidates
          (sort_candidates L (\<lambda>a b. edgeScore a > edgeScore b) candidates)))"

text \<open>
  What the strategies use of OpenCV beyond the calls themselves: every transform yields
  a matrix of the size of its argument (\<open>pyrUp\<close> and the matrix constructor one of the
  size asked for), \<open>split\<close> yields one matrix per channel, and an image converted to HSV
  or Lab has 3 channels.
\<close>

definition same_size :: "('m, 'c) cv \<Rightarrow> 'm \<Rightarrow> 'm \<Rightarrow> bool" where
  "same_size L a b = (rows L a = rows L b \<and> cols L a = cols L b)"

definition opencv_ok :: "('m, 'c) cv \<Rightarrow> bool" where
  "opencv_ok L =
     ((\<forall>m a b. same_size L (setTo_rows L m a b) m) \<and>
      (\<forall>m a b. same_size L (setTo_cols L m a b) m) \<and>
      (\<forall>m code. same_size L (cvtColor L m code) m) \<and>
      (\<forall>m w h. cols L (pyrUp L m (w, h)) = w \<and> rows L (pyrUp L m (w, h)) = h) \<and>
      (\<forall>m c. same_size L (mixChannels L m c) m) \<and>
      (\<forall>m lo hi aperture. same_size L (Canny L m lo hi aperture) m) \<and>
      (\<forall>m kernel. same_size L (dilate L m kernel) m) \<and>
      (\<forall>m kernel. same_size L (erode L m kernel) m) \<and>
      (\<forall>m v. same_size L (compare_ge L m v) m) \<and>
      (\<forall>m ksize. same_size L (medianBlur L m ksize) m) \<and>
      (\<forall>m m'. same_size L (subtract L m m') m) \<and>
      (\<forall>m thresh maxval flags. same_size L (threshold L m thresh maxval flags) m) \<and>
      (\<forall>m mop kernel iterations. same_size L (morphologyEx L m mop kernel iterations) m) \<and>
      (\<forall>m. \<forall>ch\<in>set (split L m). same_size L ch m) \<and>
      (\<forall>m ksize sigma. same_size L (GaussianBlur L m ksize sigma) m) \<and>
      (\<forall>m alpha beta norm. same_size L (normalize L m alpha beta norm) m) \<and>
      (\<forall>m rtype. same_size L (convertTo L m rtype) m) \<and>
      (\<forall>m m'. same_size L (bitwise_or L m m') m) \<and>
      (\<forall>clipLimit tileGridSize m. same_size L (CLAHE_apply L clipLimit tileGridSize m) m) \<and>
      (\<forall>h w f. rows L (Mat_32FC1 L h w f) = h \<and> cols L (Mat_32FC1 L h w f) = w) \<and>
      (\<forall>m. length (split L m) = nat (channels L m)) \<and>
      (\<forall>m. channels L (cvtColor L m COLOR_BGR2HSV) = 3) \<and>
      (\<forall>m. channels L (cvtColor L m COLOR_BGR2Lab) = 3))"

section \<open>A small instance of the library\<close>

text \<open>
  To run the pipeline on concrete inputs, a matrix is taken to be its size together with
  the closed contours drawn in it. The contour area is Green's formula, convexity is
  the sign of the turns, the gradient magnitude is 1 everywhere, and polygon
  approximation returns the contour itself. The sort is insertion sort, which keeps
  equivalent elements in their order.
\<close>

primrec sort_insert :: "('a \<Rightarrow> 'a \<Rightarrow> bool) \<Rightarrow> 'a \<Rightarrow> 'a list \<Rightarrow> 'a list" where
  "sort_insert cmp a [] = [a]"
| "sort_insert cmp a (b # bs) =
     (if cmp b a then b # sort_insert cmp a bs else a # b # bs)"

primrec toy_sort :: "('a \<Rightarrow> 'a \<Rightarrow> bool) \<Rightarrow> 'a list \<Rightarrow> 'a list" where
  "toy_sort cmp [] = []"
| "toy_sort cmp (a # as) = sort_insert cmp a (toy_sort cmp as)"

primrec shoelace :: "Point \<Rightarrow> Point list \<Rightarrow> int" where
  "shoelace prev [] = 0"
| "shoelace prev (p # ps) = px prev * py p - py prev * px p + shoelace p ps"

definition toy_contourArea :: "Point list \<Rightarrow> real" where
  "toy_contourArea ps = (if ps = [] then 0 else \<bar>real_of_int (shoelace (last ps) ps)\<bar> / 2)"

primrec turns :: "Point \<Rightarrow> Point \<Rightarrow> Point list \<Rightarrow> int list" where
  "turns prev cur [] = []"
| "turns prev cur (p # ps) =
     ((px cur - px prev) * (py p - py cur) - (py cur - py prev) * (px p - px cur)) # turns cur p ps"

definition toy_isContourConvex :: "Point list \<Rightarrow> bool" where
  "toy_isContourConvex ps =
     (if length ps < 3 then False
      else let ts = turns (ps ! (length ps - 2)) (last ps) ps
           in list_all (\<lambda>t. 0 < t) ts \<or> list_all (\<lambda>t. t < 0) ts)"

type_synonym toy_mat = "int \<times> int \<times> Point list list"

definition toy_resize :: "toy_mat \<Rightarrow> real \<Rightarrow> real \<Rightarrow> Interpolation \<Rightarrow> toy_mat" where
  "toy_resize m fx fy interpolation =
     (case m of (r, c, s) \<Rightarrow>
        (\<lfloor>real_of_int r * fy\<rfloor>, \<lfloor>real_of_int c * fx\<rfloor>,
         map (map (\<lambda>p. Point \<lfloor>real_of_int (px p) * fx\<rfloor> \<lfloor>real_of_int (py p) * fy\<rfloor>)) s))"

text \<open>
  The transforms of the instance: smoothing by \<open>pyrDown\<close> or \<open>medianBlur\<close> and the
  float matrix \<open>Mat_32FC1\<close> leave no contour, a conversion to HSV or Lab leaves the
  first contour only, \<open>pyrUp\<close> gives its argument the size asked for, every other
  transform leaves the matrix as it is.
\<close>

definition toy_blank :: "toy_mat \<Rightarrow> toy_mat" where
  "toy_blank m = (fst m, fst (snd m), [])"

definition toy_cvtColor :: "toy_mat \<Rightarrow> ColorConversion \<Rightarrow> toy_mat" where
  "toy_cvtColor m code =
     (if code = COLOR_BGR2HSV \<or> code = COLOR_BGR2Lab
      then (fst m, fst (snd m), take 1 (snd (snd m))) else m)"

definition toy_cv :: "(toy_mat, Candidate) cv" where
  "toy_cv =
     \<lparr>rows = (\<lambda>m. fst m),
      cols = (\<lambda>m. fst (snd m)),
      channels = (\<lambda>m. 3),
      at_float = (\<lambda>m y x. 1),
      at_Vec3b = (\<lambda>m y x. (0, 0, 0)),
      Mat_32FC1 = (\<lambda>h w f. (h, w, [])),
      setTo_rows = (\<lambda>m a b. m),
      setTo_cols = (\<lambda>m a b. m),
      resize = toy_resize,
      cvtColor = toy_cvtColor,
      Sobel = (\<lambda>m dx dy. m),
      magnitude = (\<lambda>gx gy. gx),
      pyrDown = (\<lambda>m size. toy_blank m),
      pyrUp = (\<lambda>m size. (snd size, fst size, snd (snd m))),
      mixChannels = (\<lambda>m c. m),
      Canny = (\<lambda>m lo hi aperture. m),
      dilate = (\<lambda>m kernel. m),
      erode = (\<lambda>m kernel. m),
      compare_ge = (\<lambda>m v. m),
      medianBlur = (\<lambda>m ksize. toy_blank m),
      subtract = (\<lambda>a b. a),
      threshold = (\<lambda>m thresh maxval flags. m),
      morphologyEx = (\<lambda>m op kernel iterations. m),
      split = (\<lambda>m. [m, m, m]),
      GaussianBlur = (\<lambda>m ksize sigma. m),
      normalize = (\<lambda>m alpha beta norm. m),
      convertTo = (\<lambda>m rtype. m),
      bitwise_or = (\<lambda>a b. a),
      CLAHE_apply = (\<lambda>clipLimit tileGridSize m. m),
      findContours = (\<lambda>m. snd (snd m)),
      contourArea = toy_contourArea,
      arcLength = (\<lambda>ps closed. 0),
      approxPolyDP = (\<lambda>ps eps closed. ps),
      isContourConvex = toy_isContourConvex,
      sort_contours = toy_sort,
      sort_candidates = toy_sort\<rparr>"

text \<open>Concrete quads and images.\<close>

definition square_A :: "Point list" where
  "square_A = [Point 20 20, Point 80 20, Point 80 80, Point 20 80]"

definition square_B :: "Point list" where
  "square_B = [Point 90 90, Point 180 90, Point 180 180, Point 90 180]"

definition kite :: "Point list" where
  "kite = [Point 100 40, Point 160 68, Point 100 144, Point 40 68]"

definition diamond :: "Point list" where
  "diamond = [Point 50 20, Point 80 50, Point 50 80, Point 20 50]"


definition img_two :: toy_mat where
  "img_two = (200, 200, [square_A, square_B])"


definition border_quad :: "Point list" where
  "border_quad = [Point 2 50, Point 100 1, Point 198 50, Point 100 100]"

definition img_blank :: toy_mat where
  "img_blank = (200, 200, [])"


text \<open>
  The candidates that the squares and the half-size page give rise to (edge score 1,
  the gradient magnitude of the instance), and the pools of the two images: on the
  image with the two squares, strategies 3 and 5 see the first square only (4 and 6
  candidates), strategy 6 sees both, the larger first, in each of its three rounds.
\<close>

definition cand_A :: Candidate where
  "cand_A = \<lparr>quad = square_A, area = 3600, edgeScore = 1\<rparr>"

definition cand_B :: Candidate where
  "cand_B = \<lparr>quad = square_B, area = 8100, edgeScore = 1\<rparr>"

definition pool_two :: "Candidate list" where
  "pool_two = replicate 10 cand_A @ concat (replicate 3 [cand_B, cand_A, cand_B, cand_A])"



text \<open>An image of 3 rows and 3 columns.\<close>

definition img_tiny :: toy_mat where
  "img_tiny = (3, 3, [])"

text \<open>
  A second instance, whose gradient magnitude at column \<open>x\<close> is \<open>x\<close>, an image of 30 rows
  and 40 columns, and a rectangle in it.
\<close>

definition ramp_cv :: "(toy_mat, Candidate) cv" where
  "ramp_cv = toy_cv\<lparr>at_float := (\<lambda>m y x. real_of_int x)\<rparr>"

definition img_ramp :: toy_mat where
  "img_ramp = (30, 40, [])"

definition rect_R :: "Point list" where
  "rect_R = [Point 10 10, Point 29 10, Point 29 20, Point 10 20]"

section \<open>Properties\<close>

subsection \<open>Rounding to a floating-point format\<close>

lemma round_even_of_int: "round_even (real_of_int n) = n"
  by (simp add: round_even_def)

lemma round_even_err: "\<bar>real_of_int (round_even y) - y\<bar> \<le> 1 / 2"
  unfolding round_even_def Let_def by (auto simp: abs_if) linarith+

lemma float_exponent:
  assumes "x \<noteq> 0"
  shows "2 powr real_of_int \<lfloor>log 2 \<bar>x\<bar>\<rfloor> \<le> \<bar>x\<bar>"
    and "\<bar>x\<bar> < 2 powr real_of_int (\<lfloor>log 2 \<bar>x\<bar>\<rfloor> + 1)"
proof -
  have pos: "0 < \<bar>x\<bar>" using assms by simp
  have "real_of_int \<lfloor>log 2 \<bar>x\<bar>\<rfloor> \<le> log 2 \<bar>x\<bar>" by simp
  then have "2 powr real_of_int \<lfloor>log 2 \<bar>x\<bar>\<rfloor> \<le> 2 powr log 2 \<bar>x\<bar>"
    by (simp only: powr_le_cancel_iff)
  then show "2 powr real_of_int \<lfloor>log 2 \<bar>x\<bar>\<rfloor> \<le> \<bar>x\<bar>" using pos by simp
  have "log 2 \<bar>x\<bar> < real_of_int (\<lfloor>log 2 \<bar>x\<bar>\<rfloor> + 1)" by linarith
  then have "2 powr log 2 \<bar>x\<bar> < 2 powr real_of_int (\<lfloor>log 2 \<bar>x\<bar>\<rfloor> + 1)"
    by (simp only: powr_less_cancel_iff)
  then show "\<bar>x\<bar> < 2 powr real_of_int (\<lfloor>log 2 \<bar>x\<bar>\<rfloor> + 1)" using pos by simp
qed

lemma float_exponent_unique:
  assumes "2 powr real_of_int e \<le> \<bar>x\<bar>" "\<bar>x\<bar> < 2 powr real_of_int (e + 1)"
  shows "\<lfloor>log 2 \<bar>x\<bar>\<rfloor> = e"
proof -
  have pos: "0 < \<bar>x\<bar>" using assms(1) by (smt (verit) powr_gt_zero)
  have "real_of_int e \<le> log 2 \<bar>x\<bar>"
    using assms(1) pos by (simp add: le_log_iff)
  moreover have "log 2 \<bar>x\<bar> < real_of_int (e + 1)"
    using assms(2) pos by (simp add: log_less_iff)
  ultimately show ?thesis by linarith
qed

lemma float_round_unfold:
  assumes "x \<noteq> 0" "ulp = 2 powr real_of_int (\<lfloor>log 2 \<bar>x\<bar>\<rfloor> + 1 - int p)"
  shows "float_round p x = real_of_int (round_even (x / ulp)) * ulp"
  using assms by (simp only: float_round_def Let_def if_False)

text \<open>
  The value of \<open>float_round\<close> at a number whose exponent is known: with \<open>k\<close> binary
  digits behind the point, \<open>x\<close> is rounded to a multiple of \<open>1 / 2 ^ k\<close>.
\<close>

lemma float_round_eval:
  assumes "2 ^ (p - 1) \<le> \<bar>x\<bar> * 2 ^ k" "\<bar>x\<bar> * 2 ^ k < 2 ^ p" "0 < p"
  shows "float_round p x = real_of_int (round_even (x * 2 ^ k)) / 2 ^ k"
proof -
  have x0: "x \<noteq> 0"
  proof
    assume "x = 0"
    with assms(1) have "(2::real) ^ (p - 1) \<le> 0" by simp
    moreover have "0 < (2::real) ^ (p - 1)" by (rule zero_less_power) simp
    ultimately show False by linarith
  qed
  let ?e = "int p - 1 - int k"
  have "2 powr real_of_int ?e = 2 powr (real (p - 1)) / 2 powr real k"
    using assms(3) by (simp add: powr_diff [symmetric] of_nat_diff)
  also have "\<dots> = 2 ^ (p - 1) / 2 ^ k" by (simp add: powr_realpow)
  finally have eq1: "2 powr real_of_int ?e = 2 ^ (p - 1) / 2 ^ k" .
  have "(2::real) ^ (p - 1) / 2 ^ k \<le> \<bar>x\<bar>"
    using assms(1) by (simp add: pos_divide_le_eq)
  then have lo: "2 powr real_of_int ?e \<le> \<bar>x\<bar>" by (simp only: eq1)
  have "2 powr real_of_int (?e + 1) = 2 powr (real p) / 2 powr real k"
    by (simp add: powr_diff [symmetric])
  also have "\<dots> = 2 ^ p / 2 ^ k" by (simp add: powr_realpow)
  finally have eq2: "2 powr real_of_int (?e + 1) = 2 ^ p / 2 ^ k" .
  have "\<bar>x\<bar> < (2::real) ^ p / 2 ^ k"
    using assms(2) by (simp add: pos_less_divide_eq)
  then have hi: "\<bar>x\<bar> < 2 powr real_of_int (?e + 1)" by (simp only: eq2)
  have e: "\<lfloor>log 2 \<bar>x\<bar>\<rfloor> = ?e" by (rule float_exponent_unique[OF lo hi])
  have ulp: "1 / 2 ^ k = 2 powr real_of_int (\<lfloor>log 2 \<bar>x\<bar>\<rfloor> + 1 - int p)"
    unfolding e by (simp add: powr_minus powr_realpow field_simps)
  show ?thesis
    by (simp only: float_round_unfold[OF x0 ulp]) simp
qed

lemma float_round_0: "float_round p 0 = 0"
  by (simp add: float_round_def)

text \<open>The relative error of one rounding is at most \<open>2\<^sup>-\<^sup>p\<close>.\<close>

lemma float_round_err:
  "\<bar>float_round p x - x\<bar> \<le> \<bar>x\<bar> / 2 ^ p"
proof (cases "x = 0")
  case True
  then show ?thesis by (simp add: float_round_def)
next
  case False
  define e where "e = \<lfloor>log 2 \<bar>x\<bar>\<rfloor>"
  define ulp where "ulp = 2 powr real_of_int (e + 1 - int p)"
  define r where "r = real_of_int (round_even (x / ulp))"
  have u: "0 < ulp" by (simp add: ulp_def)
  have fr: "float_round p x = r * ulp"
    unfolding r_def by (rule float_round_unfold[OF False]) (simp only: ulp_def e_def)
  have "\<bar>r - x / ulp\<bar> \<le> 1 / 2" unfolding r_def by (rule round_even_err)
  then have "\<bar>r - x / ulp\<bar> * ulp \<le> 1 / 2 * ulp"
    using u by (simp only: mult_le_cancel_right_pos)
  moreover have "\<bar>r - x / ulp\<bar> * ulp = \<bar>r * ulp - x\<bar>"
  proof -
    have "\<bar>r - x / ulp\<bar> * ulp = \<bar>(r - x / ulp) * ulp\<bar>"
      using u by (simp add: abs_mult)
    also have "(r - x / ulp) * ulp = r * ulp - x"
      using u by (simp add: algebra_simps)
    finally show ?thesis .
  qed
  ultimately have a: "\<bar>float_round p x - x\<bar> \<le> ulp / 2"
    unfolding fr by simp
  have "ulp = 2 powr (real_of_int e + 1 - real p)" by (simp add: ulp_def)
  also have "\<dots> = 2 powr real_of_int e * 2 powr 1 / 2 powr real p"
    by (simp only: powr_diff powr_add)
  also have "\<dots> = 2 powr real_of_int e * 2 / 2 ^ p" by (simp add: powr_realpow)
  finally have "ulp / 2 = 2 powr real_of_int e / 2 ^ p" by simp
  also have "\<dots> \<le> \<bar>x\<bar> / 2 ^ p"
    unfolding e_def using float_exponent(1)[OF False] by (simp add: divide_right_mono)
  finally show ?thesis using a by linarith
qed

lemma float_round_nonzero:
  assumes "x \<noteq> 0" "0 < p"
  shows "float_round p x \<noteq> 0"
proof
  assume z: "float_round p x = 0"
  have "(2::real) ^ 1 \<le> 2 ^ p" using assms(2) by (intro power_increasing) simp_all
  then have "\<bar>x\<bar> / 2 ^ p \<le> \<bar>x\<bar> / 2"
    by (intro divide_left_mono) simp_all
  moreover have "\<bar>x\<bar> \<le> \<bar>x\<bar> / 2 ^ p" using float_round_err[of p x] z by simp
  ultimately have "\<bar>x\<bar> \<le> \<bar>x\<bar> / 2" by linarith
  with assms(1) show False by simp
qed

text \<open>An integer of fewer than \<open>p\<close> bits is a number of the format.\<close>

lemma float_round_of_int:
  assumes "\<bar>n\<bar> < 2 ^ p"
  shows "float_round p (real_of_int n) = real_of_int n"
proof (cases "n = 0")
  case True
  then show ?thesis by (simp add: float_round_def)
next
  case False
  define x where "x = real_of_int n"
  define e where "e = \<lfloor>log 2 \<bar>x\<bar>\<rfloor>"
  have x0: "x \<noteq> 0" using False by (simp add: x_def)
  have "2 powr real_of_int e \<le> \<bar>x\<bar>" unfolding e_def by (rule float_exponent(1)[OF x0])
  also have "\<bar>x\<bar> < 2 ^ p"
  proof -
    have "real_of_int \<bar>n\<bar> < real_of_int (2 ^ p)" using assms by (simp only: of_int_less_iff)
    then show ?thesis by (simp add: x_def)
  qed
  also have "(2::real) ^ p = 2 powr real p" by (simp add: powr_realpow)
  finally have "real_of_int e < real p" by simp
  then have le: "e + 1 - int p \<le> 0" by linarith
  define j where "j = nat (int p - 1 - e)"
  have j: "e + 1 - int p = - int j" using le by (simp add: j_def)
  have ulp: "1 / 2 ^ j = 2 powr real_of_int (\<lfloor>log 2 \<bar>x\<bar>\<rfloor> + 1 - int p)"
    unfolding e_def[symmetric] j by (simp add: powr_minus powr_realpow field_simps)
  have "x / (1 / 2 ^ j) = real_of_int (n * 2 ^ j)" by (simp add: x_def)
  then have "round_even (x / (1 / 2 ^ j)) = n * 2 ^ j"
    by (simp only: round_even_of_int)
  then have "float_round p x = real_of_int (n * 2 ^ j) * (1 / 2 ^ j)"
    by (simp only: float_round_unfold[OF x0 ulp])
  then show ?thesis by (simp add: x_def)
qed

lemma f32_of_int: "\<bar>n\<bar> < 2 ^ 24 \<Longrightarrow> f32 (real_of_int n) = real_of_int n"
  unfolding f32_def by (rule float_round_of_int)

lemma f64_of_int: "\<bar>n\<bar> < 2 ^ 53 \<Longrightarrow> f64 (real_of_int n) = real_of_int n"
  unfolding f64_def by (rule float_round_of_int)

lemma f32_0: "f32 0 = 0"
  by (simp add: f32_def float_round_0)

lemma f64_0: "f64 0 = 0"
  by (simp add: f64_def float_round_0)

lemma f32_nonzero: "x \<noteq> 0 \<Longrightarrow> f32 x \<noteq> 0"
  unfolding f32_def by (rule float_round_nonzero) simp_all

lemma f64_nonzero: "x \<noteq> 0 \<Longrightarrow> f64 x \<noteq> 0"
  unfolding f64_def by (rule float_round_nonzero) simp_all


lemma float_round_binade:
  assumes "in_binade p k x" "0 < p"
  shows "float_round p x = round_to k x"
  using assms unfolding in_binade_def round_to_def by (intro float_round_eval) simp_all

lemma f32_binade: "in_binade 24 k x \<Longrightarrow> f32 x = round_to k x"
  unfolding f32_def by (rule float_round_binade) simp_all


lemma f32_numeral: "numeral n < (2::int) ^ 24 \<Longrightarrow> f32 (numeral n) = numeral n"
  using f32_of_int[of "numeral n"] by simp

lemma f64_numeral: "numeral n < (2::int) ^ 53 \<Longrightarrow> f64 (numeral n) = numeral n"
  using f64_of_int[of "numeral n"] by simp

lemma f32_1: "f32 1 = 1"
  using f32_of_int[of 1] by simp

lemma f64_1: "f64 1 = 1"
  using f64_of_int[of 1] by simp

subsection \<open>Primitives and loops\<close>

lemma fdiv_Some: "b \<noteq> 0 \<Longrightarrow> fdiv a b = Some (a / b)"
  by (simp add: fdiv_def)

lemma upt_0_4: "[0 ..< 4] = [0, 1, 2, Suc 2]"
  by (simp add: upt_rec)

lemma upt_2_5: "[2 ..< 5] = [2, 3, 4]"
  by (simp add: upt_rec)

lemma vec_at_Some: "i < length v \<Longrightarrow> vec_at v i = Some (v ! i)"
  by (simp add: vec_at_def)

lemma angleCos_den_pos:
  "0 < sqrt ((a * a + b * b) * (c * c + d * d) + 1 / 10 ^ 10)" for a b c d :: real
proof -
  have "0 \<le> (a * a + b * b) * (c * c + d * d)" by (simp add: mult_nonneg_nonneg)
  moreover have "(0::real) < 1 / 10 ^ 10" by simp
  ultimately have "0 < (a * a + b * b) * (c * c + d * d) + 1 / 10 ^ 10" by (rule add_nonneg_pos)
  then show ?thesis by (simp only: real_sqrt_gt_0_iff)
qed

lemma angleCos_Some:
  "angleCos p1 p2 p0 = Some
     ((real_of_int (px p1 - px p0) * real_of_int (px p2 - px p0) + real_of_int (py p1 - py p0) * real_of_int (py p2 - py p0))
       / sqrt ((real_of_int (px p1 - px p0) * real_of_int (px p1 - px p0) + real_of_int (py p1 - py p0) * real_of_int (py p1 - py p0))
             * (real_of_int (px p2 - px p0) * real_of_int (px p2 - px p0) + real_of_int (py p2 - py p0) * real_of_int (py p2 - py p0)) + 1 / 10 ^ 10))"
proof -
  let ?den = "sqrt ((real_of_int (px p1 - px p0) * real_of_int (px p1 - px p0) + real_of_int (py p1 - py p0) * real_of_int (py p1 - py p0))
             * (real_of_int (px p2 - px p0) * real_of_int (px p2 - px p0) + real_of_int (py p2 - py p0) * real_of_int (py p2 - py p0)) + 1 / 10 ^ 10)"
  have "0 < ?den" by (rule angleCos_den_pos)
  then have "?den \<noteq> 0" by linarith
  then show ?thesis unfolding angleCos_def Let_def by (rule fdiv_Some)
qed

lemma for_each_total:
  assumes "\<And>a s. a \<in> set xs \<Longrightarrow> \<exists>s'. body a s = Some s'"
  shows "\<exists>s'. for_each body xs st = Some s'"
  using assms
proof (induction xs arbitrary: st)
  case Nil
  then show ?case by simp
next
  case (Cons a xs)
  from Cons.prems[of a st] obtain s1 where s1: "body a st = Some s1" by auto
  from Cons.IH[of s1] Cons.prems obtain s2 where "for_each body xs s1 = Some s2" by auto
  with s1 show ?case by simp
qed

lemma for_each_skip:
  assumes "\<And>a st. a \<in> set xs \<Longrightarrow> body a st = Some st"
  shows "for_each body xs st = Some st"
  using assms by (induction xs) simp_all

lemma sample_step_eq:
  assumes "nSamples \<noteq> 0"
  shows "sample_step L gradMag p1 p2 nSamples s acc =
     Some (if spec_in_map L gradMag (float_sample_point p1 p2 nSamples s)
           then (fst acc + at_float L gradMag (py (float_sample_point p1 p2 nSamples s)) (px (float_sample_point p1 p2 nSamples s)), snd acc + 1)
           else acc)"
proof -
  have "real_of_int nSamples \<noteq> 0" using assms by simp
  then have "f32 (real_of_int nSamples) \<noteq> 0" by (rule f32_nonzero)
  then show ?thesis
    by (simp add: sample_step_def fdiv_def Let_def Mat_at_def spec_in_map_def float_sample_point_def
          float_interpolate_def)
qed

lemma sample_loop_eq:
  assumes "nSamples \<noteq> 0"
  shows "for_each (sample_step L gradMag p1 p2 nSamples) ss acc =
     Some (fst acc + sum_list (map (\<lambda>p. at_float L gradMag (py p) (px p))
                         (filter (spec_in_map L gradMag) (map (float_sample_point p1 p2 nSamples) ss))),
           snd acc + int (length (filter (spec_in_map L gradMag) (map (float_sample_point p1 p2 nSamples) ss))))"
proof (induction ss arbitrary: acc)
  case Nil
  show ?case by simp
next
  case (Cons s ss)
  show ?case
  proof (cases "spec_in_map L gradMag (float_sample_point p1 p2 nSamples s)")
    case True
    then have "sample_step L gradMag p1 p2 nSamples s acc =
        Some (fst acc + at_float L gradMag (py (float_sample_point p1 p2 nSamples s)) (px (float_sample_point p1 p2 nSamples s)), snd acc + 1)"
      by (simp only: sample_step_eq[OF assms] if_True)
    then show ?thesis using True
      by (simp only: for_each.simps Option.bind.simps Cons.IH) (simp add: add.assoc)
  next
    case False
    then have "sample_step L gradMag p1 p2 nSamples s acc = Some acc"
      by (simp only: sample_step_eq[OF assms] if_False)
    then show ?thesis using False
      by (simp only: for_each.simps Option.bind.simps Cons.IH) simp
  qed
qed

lemma c_trunc_nonneg: "0 \<le> r \<Longrightarrow> c_trunc r = \<lfloor>r\<rfloor>"
  by (simp add: c_trunc_def)

lemma edge_step_eq:
  assumes "i < length q" "(i + 1) mod 4 < length q"
  shows "edge_step L gradMag q i acc =
     Some (fst acc + sum_list (map (\<lambda>p. at_float L gradMag (py p) (px p))
                         (filter (spec_in_map L gradMag) (float_edge_samples (q ! i) (q ! ((i + 1) mod 4))))),
           snd acc + int (length (filter (spec_in_map L gradMag) (float_edge_samples (q ! i) (q ! ((i + 1) mod 4))))))"
proof -
  let ?n = "max 10 (c_trunc (cv_norm (Point_minus (q ! ((i + 1) mod 4)) (q ! i))))"
  have n0: "?n \<noteq> 0" by simp
  show ?thesis
    using assms
    apply (simp only: edge_step_def vec_at_Some Option.bind.simps Let_def sample_loop_eq[OF n0])
    apply (simp only: float_edge_samples_def Let_def)
    done
qed

lemma edge_step_eq':
  assumes "i < length q" "i' = (i + 1) mod 4" "i' < length q"
  shows "edge_step L gradMag q i acc =
     Some (fst acc + sum_list (map (\<lambda>p. at_float L gradMag (py p) (px p))
                         (filter (spec_in_map L gradMag) (float_edge_samples (q ! i) (q ! i')))),
           snd acc + int (length (filter (spec_in_map L gradMag) (float_edge_samples (q ! i) (q ! i')))))"
  using assms edge_step_eq[of i q L gradMag acc] by simp

lemma edge_loop_eq:
  assumes "length q = 4"
  shows "for_each (edge_step L gradMag q) [0 ..< 4] (0, 0) =
     Some (sum_list (map (\<lambda>p. at_float L gradMag (py p) (px p)) (filter (spec_in_map L gradMag) (float_quad_samples q))),
           int (length (filter (spec_in_map L gradMag) (float_quad_samples q))))"
proof -
  have idx: "[0 ..< 4] = [0, 1, 2, 3::nat]" by (simp add: upt_rec)
  have e0: "\<And>acc. edge_step L gradMag q 0 acc = Some (fst acc + sum_list (map (\<lambda>p. at_float L gradMag (py p) (px p))
                         (filter (spec_in_map L gradMag) (float_edge_samples (q ! 0) (q ! 1)))),
           snd acc + int (length (filter (spec_in_map L gradMag) (float_edge_samples (q ! 0) (q ! 1)))))"
    by (rule edge_step_eq') (use assms in simp_all)
  have e1: "\<And>acc. edge_step L gradMag q 1 acc = Some (fst acc + sum_list (map (\<lambda>p. at_float L gradMag (py p) (px p))
                         (filter (spec_in_map L gradMag) (float_edge_samples (q ! 1) (q ! 2)))),
           snd acc + int (length (filter (spec_in_map L gradMag) (float_edge_samples (q ! 1) (q ! 2)))))"
    by (rule edge_step_eq') (use assms in simp_all)
  have e2: "\<And>acc. edge_step L gradMag q 2 acc = Some (fst acc + sum_list (map (\<lambda>p. at_float L gradMag (py p) (px p))
                         (filter (spec_in_map L gradMag) (float_edge_samples (q ! 2) (q ! 3)))),
           snd acc + int (length (filter (spec_in_map L gradMag) (float_edge_samples (q ! 2) (q ! 3)))))"
    by (rule edge_step_eq') (use assms in simp_all)
  have e3: "\<And>acc. edge_step L gradMag q 3 acc = Some (fst acc + sum_list (map (\<lambda>p. at_float L gradMag (py p) (px p))
                         (filter (spec_in_map L gradMag) (float_edge_samples (q ! 3) (q ! 0)))),
           snd acc + int (length (filter (spec_in_map L gradMag) (float_edge_samples (q ! 3) (q ! 0)))))"
    by (rule edge_step_eq') (use assms in simp_all)
  have samples: "float_quad_samples q = float_edge_samples (q ! 0) (q ! 1) @ float_edge_samples (q ! 1) (q ! 2)
      @ float_edge_samples (q ! 2) (q ! 3) @ float_edge_samples (q ! 3) (q ! 0)"
  proof -
    have m: "(0 + 1) mod 4 = (1::nat)" "(1 + 1) mod 4 = (2::nat)" "(2 + 1) mod 4 = (3::nat)" "(3 + 1) mod 4 = (0::nat)"
      by simp_all
    show ?thesis
      by (simp only: float_quad_samples_def idx list.map concat.simps m append_Nil2)
  qed
  show ?thesis unfolding idx
    by (simp only: for_each.simps Option.bind.simps e0 e1 e2 e3 samples fst_conv snd_conv) simp
qed

lemma computeEdgeScore_eq:
  assumes "length q = 4"
  shows "computeEdgeScore L q gradMag = Some (float_edgeScore L q gradMag)"
proof (cases "filter (spec_in_map L gradMag) (float_quad_samples q) = []")
  case True
  then show ?thesis
    by (simp add: computeEdgeScore_def edge_loop_eq[OF assms] float_edgeScore_def)
next
  case False
  then have "0 < length (filter (spec_in_map L gradMag) (float_quad_samples q))" by simp
  then show ?thesis using False
    by (simp add: computeEdgeScore_def edge_loop_eq[OF assms] float_edgeScore_def fdiv_def Let_def)
qed

lemma maxCos_step_total:
  assumes "4 \<le> length q" "j \<in> {2, 3, 4}"
  shows "\<exists>m. maxCos_step q j maxCos = Some m"
proof -
  from assms have "j mod 4 < length q" "j - 2 < length q" "j - 1 < length q" by auto
  then show ?thesis
    by (simp add: maxCos_step_def vec_at_Some angleCos_Some)
qed

lemma isGoodQuad_total:
  assumes "4 \<le> length q"
  shows "\<exists>b. isGoodQuad L q imgArea imgW imgH = Some b"
proof -
  have "\<exists>m. for_each (maxCos_step q) [2 ..< 5] 0 = Some m"
    by (rule for_each_total) (use assms in \<open>auto intro!: maxCos_step_total\<close>)
  then obtain m where m: "for_each (maxCos_step q) [2 ..< 5] 0 = Some m" ..
  show ?thesis
    by (simp only: isGoodQuad_def Let_def m Option.bind.simps split: if_split) blast
qed

lemma borderCount_loop_eq:
  "borderCount_loop m W H ps n = n + int (length (filter (onBorder m W H) ps))"
  by (induction ps arbitrary: n) simp_all

lemma max_element_loop_spec:
  fixes key :: "'a \<Rightarrow> 'k::linorder"
  assumes "li < length pre" "pre ! li = largest"
    and "\<forall>j<length pre. key (pre ! j) \<le> key largest"
    and "\<forall>j<li. key (pre ! j) < key largest"
  shows "max_element_loop (\<lambda>a b. key a < key b) as (length pre) largest li < length (pre @ as) \<and>
         (\<forall>j<length (pre @ as). key ((pre @ as) ! j) \<le>
             key ((pre @ as) ! max_element_loop (\<lambda>a b. key a < key b) as (length pre) largest li)) \<and>
         (\<forall>j<max_element_loop (\<lambda>a b. key a < key b) as (length pre) largest li.
             key ((pre @ as) ! j) < key ((pre @ as) ! max_element_loop (\<lambda>a b. key a < key b) as (length pre) largest li))"
  using assms
proof (induction as arbitrary: pre largest li)
  case Nil
  then show ?case by simp
next
  case (Cons a as)
  show ?case
  proof (cases "key largest < key a")
    case True
    have "max_element_loop (\<lambda>a b. key a < key b) as (length (pre @ [a])) a (length pre) < length ((pre @ [a]) @ as) \<and>
         (\<forall>j<length ((pre @ [a]) @ as). key (((pre @ [a]) @ as) ! j) \<le>
             key (((pre @ [a]) @ as) ! max_element_loop (\<lambda>a b. key a < key b) as (length (pre @ [a])) a (length pre))) \<and>
         (\<forall>j<max_element_loop (\<lambda>a b. key a < key b) as (length (pre @ [a])) a (length pre).
             key (((pre @ [a]) @ as) ! j) < key (((pre @ [a]) @ as) ! max_element_loop (\<lambda>a b. key a < key b) as (length (pre @ [a])) a (length pre)))"
    proof (rule Cons.IH)
      show "length pre < length (pre @ [a])" by simp
      show "(pre @ [a]) ! length pre = a" by simp
      show "\<forall>j<length (pre @ [a]). key ((pre @ [a]) ! j) \<le> key a"
        using Cons.prems(3) True by (auto simp: nth_append less_Suc_eq intro: order.trans less_imp_le)
      show "\<forall>j<length pre. key ((pre @ [a]) ! j) < key a"
        using Cons.prems(3) True by (auto simp: nth_append intro: le_less_trans)
    qed
    with True show ?thesis by simp
  next
    case False
    have "max_element_loop (\<lambda>a b. key a < key b) as (length (pre @ [a])) largest li < length ((pre @ [a]) @ as) \<and>
         (\<forall>j<length ((pre @ [a]) @ as). key (((pre @ [a]) @ as) ! j) \<le>
             key (((pre @ [a]) @ as) ! max_element_loop (\<lambda>a b. key a < key b) as (length (pre @ [a])) largest li)) \<and>
         (\<forall>j<max_element_loop (\<lambda>a b. key a < key b) as (length (pre @ [a])) largest li.
             key (((pre @ [a]) @ as) ! j) < key (((pre @ [a]) @ as) ! max_element_loop (\<lambda>a b. key a < key b) as (length (pre @ [a])) largest li))"
    proof (rule Cons.IH)
      show "li < length (pre @ [a])" using Cons.prems(1) by simp
      show "(pre @ [a]) ! li = largest" using Cons.prems(1,2) by (simp add: nth_append)
      show "\<forall>j<length (pre @ [a]). key ((pre @ [a]) ! j) \<le> key largest"
        using Cons.prems(3) False by (auto simp: nth_append less_Suc_eq)
      show "\<forall>j<li. key ((pre @ [a]) ! j) < key largest"
        using Cons.prems(1,4) by (auto simp: nth_append)
    qed
    with False show ?thesis by simp
  qed
qed

lemma max_element_spec:
  fixes key :: "'a \<Rightarrow> 'k::linorder"
  assumes "v \<noteq> []"
  shows "max_element (\<lambda>a b. key a < key b) v < length v \<and>
         (\<forall>j<length v. key (v ! j) \<le> key (v ! max_element (\<lambda>a b. key a < key b) v)) \<and>
         (\<forall>j<max_element (\<lambda>a b. key a < key b) v. key (v ! j) < key (v ! max_element (\<lambda>a b. key a < key b) v))"
proof -
  from assms obtain a as where v: "v = a # as" by (cases v) auto
  have "max_element_loop (\<lambda>a b. key a < key b) as (length [a]) a 0 < length ([a] @ as) \<and>
         (\<forall>j<length ([a] @ as). key (([a] @ as) ! j) \<le>
             key (([a] @ as) ! max_element_loop (\<lambda>a b. key a < key b) as (length [a]) a 0)) \<and>
         (\<forall>j<max_element_loop (\<lambda>a b. key a < key b) as (length [a]) a 0.
             key (([a] @ as) ! j) < key (([a] @ as) ! max_element_loop (\<lambda>a b. key a < key b) as (length [a]) a 0))"
    by (rule max_element_loop_spec) simp_all
  then show ?thesis by (simp add: v max_element_def)
qed

lemma min_element_loop_spec:
  fixes key :: "'a \<Rightarrow> 'k::linorder"
  assumes "si < length pre" "pre ! si = smallest"
    and "\<forall>j<length pre. key smallest \<le> key (pre ! j)"
    and "\<forall>j<si. key smallest < key (pre ! j)"
  shows "min_element_loop (\<lambda>a b. key a < key b) as (length pre) smallest si < length (pre @ as) \<and>
         (\<forall>j<length (pre @ as).
             key ((pre @ as) ! min_element_loop (\<lambda>a b. key a < key b) as (length pre) smallest si) \<le> key ((pre @ as) ! j)) \<and>
         (\<forall>j<min_element_loop (\<lambda>a b. key a < key b) as (length pre) smallest si.
             key ((pre @ as) ! min_element_loop (\<lambda>a b. key a < key b) as (length pre) smallest si) < key ((pre @ as) ! j))"
  using assms
proof (induction as arbitrary: pre smallest si)
  case Nil
  then show ?case by simp
next
  case (Cons a as)
  show ?case
  proof (cases "key a < key smallest")
    case True
    have "min_element_loop (\<lambda>a b. key a < key b) as (length (pre @ [a])) a (length pre) < length ((pre @ [a]) @ as) \<and>
         (\<forall>j<length ((pre @ [a]) @ as).
             key (((pre @ [a]) @ as) ! min_element_loop (\<lambda>a b. key a < key b) as (length (pre @ [a])) a (length pre)) \<le> key (((pre @ [a]) @ as) ! j)) \<and>
         (\<forall>j<min_element_loop (\<lambda>a b. key a < key b) as (length (pre @ [a])) a (length pre).
             key (((pre @ [a]) @ as) ! min_element_loop (\<lambda>a b. key a < key b) as (length (pre @ [a])) a (length pre)) < key (((pre @ [a]) @ as) ! j))"
    proof (rule Cons.IH)
      show "length pre < length (pre @ [a])" by simp
      show "(pre @ [a]) ! length pre = a" by simp
      show "\<forall>j<length (pre @ [a]). key a \<le> key ((pre @ [a]) ! j)"
        using Cons.prems(3) True by (auto simp: nth_append less_Suc_eq intro: order.trans less_imp_le)
      show "\<forall>j<length pre. key a < key ((pre @ [a]) ! j)"
        using Cons.prems(3) True by (auto simp: nth_append intro: less_le_trans)
    qed
    with True show ?thesis by simp
  next
    case False
    have "min_element_loop (\<lambda>a b. key a < key b) as (length (pre @ [a])) smallest si < length ((pre @ [a]) @ as) \<and>
         (\<forall>j<length ((pre @ [a]) @ as).
             key (((pre @ [a]) @ as) ! min_element_loop (\<lambda>a b. key a < key b) as (length (pre @ [a])) smallest si) \<le> key (((pre @ [a]) @ as) ! j)) \<and>
         (\<forall>j<min_element_loop (\<lambda>a b. key a < key b) as (length (pre @ [a])) smallest si.
             key (((pre @ [a]) @ as) ! min_element_loop (\<lambda>a b. key a < key b) as (length (pre @ [a])) smallest si) < key (((pre @ [a]) @ as) ! j))"
    proof (rule Cons.IH)
      show "si < length (pre @ [a])" using Cons.prems(1) by simp
      show "(pre @ [a]) ! si = smallest" using Cons.prems(1,2) by (simp add: nth_append)
      show "\<forall>j<length (pre @ [a]). key smallest \<le> key ((pre @ [a]) ! j)"
        using Cons.prems(3) False by (auto simp: nth_append less_Suc_eq)
      show "\<forall>j<si. key smallest < key ((pre @ [a]) ! j)"
        using Cons.prems(1,4) by (auto simp: nth_append)
    qed
    with False show ?thesis by simp
  qed
qed

lemma min_element_spec:
  fixes key :: "'a \<Rightarrow> 'k::linorder"
  assumes "v \<noteq> []"
  shows "min_element (\<lambda>a b. key a < key b) v < length v \<and>
         (\<forall>j<length v. key (v ! min_element (\<lambda>a b. key a < key b) v) \<le> key (v ! j)) \<and>
         (\<forall>j<min_element (\<lambda>a b. key a < key b) v. key (v ! min_element (\<lambda>a b. key a < key b) v) < key (v ! j))"
proof -
  from assms obtain a as where v: "v = a # as" by (cases v) auto
  have "min_element_loop (\<lambda>a b. key a < key b) as (length [a]) a 0 < length ([a] @ as) \<and>
         (\<forall>j<length ([a] @ as).
             key (([a] @ as) ! min_element_loop (\<lambda>a b. key a < key b) as (length [a]) a 0) \<le> key (([a] @ as) ! j)) \<and>
         (\<forall>j<min_element_loop (\<lambda>a b. key a < key b) as (length [a]) a 0.
             key (([a] @ as) ! min_element_loop (\<lambda>a b. key a < key b) as (length [a]) a 0) < key (([a] @ as) ! j))"
    by (rule min_element_loop_spec) simp_all
  then show ?thesis by (simp add: v min_element_def)
qed

lemma orderPoints_spec:
  assumes "length pts = 4" "orderPoints pts = Some r"
  shows "length r = 4 \<and> set r \<subseteq> set pts \<and>
    (\<forall>p\<in>set pts. px (r ! 0) + py (r ! 0) \<le> px p + py p \<and> px p + py p \<le> px (r ! 2) + py (r ! 2) \<and>
                  py (r ! 1) - px (r ! 1) \<le> py p - px p \<and> py p - px p \<le> py (r ! 3) - px (r ! 3))"
proof -
  let ?s = "map (\<lambda>p. px p + py p) pts" and ?d = "map (\<lambda>p. py p - px p) pts"
  have ne: "?s \<noteq> []" "?d \<noteq> []" using assms(1) by auto
  note smin = min_element_spec[of ?s "\<lambda>x. x", OF ne(1)]
  note smax = max_element_spec[of ?s "\<lambda>x. x", OF ne(1)]
  note dmin = min_element_spec[of ?d "\<lambda>x. x", OF ne(2)]
  note dmax = max_element_spec[of ?d "\<lambda>x. x", OF ne(2)]
  let ?i0 = "min_element (<) ?s" and ?i2 = "max_element (<) ?s"
  let ?i1 = "min_element (<) ?d" and ?i3 = "max_element (<) ?d"
  have lt: "?i0 < length pts" "?i2 < length pts" "?i1 < length pts" "?i3 < length pts"
    using smin smax dmin dmax by simp_all
  have r: "r = [pts ! ?i0, pts ! ?i1, pts ! ?i2, pts ! ?i3]"
    using assms lt by (simp add: orderPoints_def vec_at_def Let_def)
  have in_set: "\<And>i. i < length pts \<Longrightarrow> pts ! i \<in> set pts" by simp
  have P: "\<And>p. p \<in> set pts \<Longrightarrow> \<exists>j<length pts. p = pts ! j"
    by (metis in_set_conv_nth)
  show ?thesis
  proof (intro conjI ballI)
    show "length r = 4" by (simp add: r)
    show "set r \<subseteq> set pts" using lt by (simp add: r)
  next
    fix p assume "p \<in> set pts"
    then obtain j where j: "j < length pts" "p = pts ! j" using P by blast
    show "px (r ! 0) + py (r ! 0) \<le> px p + py p"
      using smin j lt by (simp add: r)
    show "px p + py p \<le> px (r ! 2) + py (r ! 2)"
      using smax j lt by (simp add: r)
    show "py (r ! 1) - px (r ! 1) \<le> py p - px p"
      using dmin j lt by (simp add: r)
    show "py p - px p \<le> py (r ! 3) - px (r ! 3)"
      using dmax j lt by (simp add: r)
  qed
qed

lemma onBorder_spec: "onBorder d W H = spec_within_border d W H"
  by (auto simp: onBorder_def spec_within_border_def fun_eq_iff)

lemma isGoodQuad_True:
  assumes "isGoodQuad L q imgArea imgW imgH = Some True"
  shows "imgArea * (5 / 100) \<le> contourArea L q \<and> contourArea L q \<le> imgArea * (85 / 100) \<and>
         isContourConvex L q \<and> length (filter (spec_within_border 5 imgW imgH) q) < 3"
proof -
  have 1: "\<not> (contourArea L q < imgArea * (5 / 100) \<or> contourArea L q > imgArea * (85 / 100))"
    using assms by (auto simp: isGoodQuad_def Let_def simp del: for_each.simps split: if_splits)
  have 2: "isContourConvex L q"
    using assms by (auto simp: isGoodQuad_def Let_def simp del: for_each.simps split: if_splits)
  have 3: "\<not> borderCount_loop 5 imgW imgH q 0 \<ge> 3"
    using assms by (auto simp: isGoodQuad_def Let_def simp del: for_each.simps split: if_splits)
  from 3 have "length (filter (spec_within_border 5 imgW imgH) q) < 3"
    by (simp add: borderCount_loop_eq onBorder_spec)
  with 1 2 show ?thesis by auto
qed

lemma collectQuads_step_appends:
  assumes "i < length contours"
  shows "\<exists>new. collectQuads_step L clean imgArea gradMag contours eps i candidates = Some (candidates @ new) \<and>
           list_all (\<lambda>c. spec_valid_quad L imgArea (cols L clean) (rows L clean) (quad c) \<and>
                          area c = contourArea L (quad c) \<and>
                          Some (edgeScore c) = computeEdgeScore L (quad c) gradMag) new"
proof -
  let ?approx = "approxPolyDP L (contours ! i) (eps * arcLength L (contours ! i) True) True"
  show ?thesis
  proof (cases "length ?approx = 4")
    case False
    then have "collectQuads_step L clean imgArea gradMag contours eps i candidates = Some (candidates @ [])"
      using assms by (simp add: collectQuads_step_def vec_at_def Let_def)
    then show ?thesis by (intro exI[of _ "[]"]) simp
  next
    case len: True
    then obtain b where b: "isGoodQuad L ?approx imgArea (cols L clean) (rows L clean) = Some b"
      using isGoodQuad_total[of ?approx L imgArea "cols L clean" "rows L clean"] by auto
    show ?thesis
    proof (cases b)
      case False
      with b len have "collectQuads_step L clean imgArea gradMag contours eps i candidates = Some (candidates @ [])"
        using assms by (simp add: collectQuads_step_def vec_at_def Let_def)
      then show ?thesis by (intro exI[of _ "[]"]) simp
    next
      case True
      let ?c = "\<lparr>quad = ?approx, area = contourArea L ?approx, edgeScore = float_edgeScore L ?approx gradMag\<rparr>"
      from True b len have "collectQuads_step L clean imgArea gradMag contours eps i candidates = Some (candidates @ [?c])"
        using assms by (simp add: collectQuads_step_def vec_at_def Let_def computeEdgeScore_eq)
      moreover have "spec_valid_quad L imgArea (cols L clean) (rows L clean) (quad ?c)"
        using isGoodQuad_True[of L ?approx imgArea "cols L clean" "rows L clean"] b True len
        by (simp add: spec_valid_quad_def)
      moreover have "Some (edgeScore ?c) = computeEdgeScore L (quad ?c) gradMag"
        using len by (simp add: computeEdgeScore_eq)
      ultimately show ?thesis by (intro exI[of _ "[?c]"]) simp
    qed
  qed
qed

lemma for_each_appends:
  assumes "\<And>a st. a \<in> set xs \<Longrightarrow> \<exists>new. body a st = Some (st @ new) \<and> list_all P new"
  shows "\<exists>new. for_each body xs st = Some (st @ new) \<and> list_all P new"
  using assms
proof (induction xs arbitrary: st)
  case Nil
  show ?case by (intro exI[of _ "[]"]) simp
next
  case (Cons a xs)
  from Cons.prems[of a st] obtain n1 where n1: "body a st = Some (st @ n1)" "list_all P n1" by auto
  from Cons.IH[of "st @ n1"] Cons.prems obtain n2 where
    n2: "for_each body xs (st @ n1) = Some ((st @ n1) @ n2)" "list_all P n2" by auto
  show ?case by (intro exI[of _ "n1 @ n2"]) (simp add: n1 n2)
qed

lemma opencv_ok_setTo:
  assumes "opencv_ok L"
  shows "rows L (setTo_rows L m a b) = rows L m" "cols L (setTo_rows L m a b) = cols L m"
    "rows L (setTo_cols L m a b) = rows L m" "cols L (setTo_cols L m a b) = cols L m"
  using assms unfolding opencv_ok_def same_size_def by simp_all

lemma clean_borders_Some:
  assumes "opencv_ok L" "5 \<le> rows L edges" "5 \<le> cols L edges"
  shows "\<exists>clean. clean_borders L edges = Some clean \<and>
           rows L clean = rows L edges \<and> cols L clean = cols L edges"
  using assms(2,3)
  by (simp add: clean_borders_def rowRange_setTo_def colRange_setTo_def opencv_ok_setTo[OF assms(1)])

lemma clean_borders_None:
  assumes "opencv_ok L" "rows L edges < 5 \<or> cols L edges < 5"
  shows "clean_borders L edges = None"
  using assms(2)
  by (auto simp: clean_borders_def rowRange_setTo_def colRange_setTo_def opencv_ok_setTo[OF assms(1)])

lemma collectQuads_None: "clean_borders L edges = None \<Longrightarrow> collectQuads L edges imgArea gradMag candidates = None"
  by (simp add: collectQuads_def)

lemma collectQuads_appends:
  assumes "clean_borders L edges = Some clean"
  shows "\<exists>new. collectQuads L edges imgArea gradMag candidates = Some (candidates @ new) \<and>
         list_all (\<lambda>c. spec_valid_quad L imgArea (cols L clean) (rows L clean) (quad c) \<and>
                        area c = contourArea L (quad c) \<and>
                        Some (edgeScore c) = computeEdgeScore L (quad c) gradMag) new"
  unfolding collectQuads_def assms Option.bind.simps Let_def
  by (rule for_each_appends, rule for_each_appends, rule collectQuads_step_appends) auto

lemma list_all_mono: "list_all P xs \<Longrightarrow> (\<And>x. P x \<Longrightarrow> Q x) \<Longrightarrow> list_all Q xs"
  by (induction xs) auto

lemma collectQuads_pooled:
  assumes "clean_borders L edges = Some clean"
  shows "\<exists>new. collectQuads L edges imgArea gradMag candidates = Some (candidates @ new) \<and>
         list_all (pooled L imgArea gradMag) new"
proof -
  from collectQuads_appends[OF assms, of imgArea gradMag candidates] obtain new where
    new: "collectQuads L edges imgArea gradMag candidates = Some (candidates @ new)"
      "list_all (\<lambda>c. spec_valid_quad L imgArea (cols L clean) (rows L clean) (quad c) \<and>
                        area c = contourArea L (quad c) \<and>
                        Some (edgeScore c) = computeEdgeScore L (quad c) gradMag) new"
    by blast
  have "list_all (pooled L imgArea gradMag) new"
    by (rule list_all_mono[OF new(2)])
       (auto simp: pooled_def spec_valid_quad_def computeEdgeScore_eq)
  with new(1) show ?thesis by blast
qed

lemma collectQuads_cases:
  "collectQuads L edges imgArea gradMag candidates = None \<or>
   (\<exists>new. collectQuads L edges imgArea gradMag candidates = Some (candidates @ new) \<and>
          list_all (pooled L imgArea gradMag) new)"
proof (cases "clean_borders L edges")
  case None
  then show ?thesis by (simp add: collectQuads_None)
next
  case (Some clean)
  show ?thesis by (rule disjI2) (rule collectQuads_pooled[OF Some])
qed

lemma collectQuads_fits:
  assumes "opencv_ok L" "5 \<le> rows L edges" "5 \<le> cols L edges"
  shows "\<exists>new. collectQuads L edges imgArea gradMag candidates = Some (candidates @ new) \<and>
         list_all (pooled L imgArea gradMag) new"
proof -
  from clean_borders_Some[OF assms] obtain clean where "clean_borders L edges = Some clean" by blast
  then show ?thesis by (rule collectQuads_pooled)
qed

lemma collectQuads_too_small:
  assumes "opencv_ok L" "rows L edges < 5 \<or> cols L edges < 5"
  shows "collectQuads L edges imgArea gradMag candidates = None"
  by (rule collectQuads_None) (rule clean_borders_None[OF assms])

lemma appends_bind:
  assumes "\<And>st. \<exists>new. f st = Some (st @ new) \<and> list_all P new"
    and "\<And>st. \<exists>new. g st = Some (st @ new) \<and> list_all P new"
  shows "\<exists>new. Option.bind (f st) g = Some (st @ new) \<and> list_all P new"
proof -
  from assms(1)[of st] obtain n1 where n1: "f st = Some (st @ n1)" "list_all P n1" by blast
  from assms(2)[of "st @ n1"] obtain n2 where n2: "g (st @ n1) = Some ((st @ n1) @ n2)" "list_all P n2" by blast
  show ?thesis by (intro exI[of _ "n1 @ n2"]) (simp add: n1 n2)
qed

lemma for_each_cases:
  assumes "\<And>a st. a \<in> set xs \<Longrightarrow>
     body a st = None \<or> (\<exists>new. body a st = Some (st @ new) \<and> list_all P new)"
  shows "for_each body xs st = None \<or>
     (\<exists>new. for_each body xs st = Some (st @ new) \<and> list_all P new)"
  using assms
proof (induction xs arbitrary: st)
  case Nil
  have "for_each body [] st = Some (st @ []) \<and> list_all P []" by simp
  then show ?case by blast
next
  case (Cons a xs)
  from Cons.prems[of a st] consider "body a st = None"
    | n1 where "body a st = Some (st @ n1)" "list_all P n1" by auto
  then show ?case
  proof cases
    case 1
    then show ?thesis by simp
  next
    case 2
    from Cons.IH[of "st @ n1"] Cons.prems consider "for_each body xs (st @ n1) = None"
      | n2 where "for_each body xs (st @ n1) = Some ((st @ n1) @ n2)" "list_all P n2" by auto
    then show ?thesis
    proof cases
      case 1
      with 2 show ?thesis by simp
    next
      case 2
      have "for_each body (a # xs) st = Some (st @ (n1 @ n2)) \<and> list_all P (n1 @ n2)"
        using \<open>body a st = Some (st @ n1)\<close> \<open>list_all P n1\<close> 2 by simp
      then show ?thesis by blast
    qed
  qed
qed

lemma cases_bind:
  assumes "\<And>st. f st = None \<or> (\<exists>new. f st = Some (st @ new) \<and> list_all P new)"
    and "\<And>st. g st = None \<or> (\<exists>new. g st = Some (st @ new) \<and> list_all P new)"
  shows "Option.bind (f st) g = None \<or>
     (\<exists>new. Option.bind (f st) g = Some (st @ new) \<and> list_all P new)"
proof (cases "f st")
  case None
  then show ?thesis by simp
next
  case (Some st')
  with assms(1)[of st] obtain n1 where n1: "f st = Some (st @ n1)" "list_all P n1" by auto
  show ?thesis
  proof (cases "g (st @ n1)")
    case None
    with n1(1) show ?thesis by simp
  next
    case Some': (Some st'')
    with assms(2)[of "st @ n1"] obtain n2 where n2: "g (st @ n1) = Some ((st @ n1) @ n2)" "list_all P n2"
      by auto
    have "Option.bind (f st) g = Some (st @ (n1 @ n2)) \<and> list_all P (n1 @ n2)"
      using n1 n2 by simp
    then show ?thesis by blast
  qed
qed

text \<open>The sizes of the masks, from what \<open>opencv_ok\<close> says of the transforms.\<close>

lemma opencv_ok_sizes:
  assumes "opencv_ok L"
  shows "rows L (cvtColor L m code) = rows L m" "cols L (cvtColor L m code) = cols L m"
    "rows L (pyrUp L m (w, h)) = h" "cols L (pyrUp L m (w, h)) = w"
    "rows L (mixChannels L m c) = rows L m" "cols L (mixChannels L m c) = cols L m"
    "rows L (Canny L m lo hi aperture) = rows L m" "cols L (Canny L m lo hi aperture) = cols L m"
    "rows L (dilate L m ker) = rows L m" "cols L (dilate L m ker) = cols L m"
    "rows L (erode L m ker) = rows L m" "cols L (erode L m ker) = cols L m"
    "rows L (compare_ge L m v) = rows L m" "cols L (compare_ge L m v) = cols L m"
    "rows L (medianBlur L m ksize) = rows L m" "cols L (medianBlur L m ksize) = cols L m"
    "rows L (subtract L m m') = rows L m" "cols L (subtract L m m') = cols L m"
    "rows L (threshold L m thresh maxval flags) = rows L m" "cols L (threshold L m thresh maxval flags) = cols L m"
    "rows L (morphologyEx L m mop ker iterations) = rows L m"
    "cols L (morphologyEx L m mop ker iterations) = cols L m"
    "rows L (GaussianBlur L m ks sigma) = rows L m" "cols L (GaussianBlur L m ks sigma) = cols L m"
    "rows L (normalize L m alpha beta nt) = rows L m" "cols L (normalize L m alpha beta nt) = cols L m"
    "rows L (convertTo L m rtype) = rows L m" "cols L (convertTo L m rtype) = cols L m"
    "rows L (bitwise_or L m m') = rows L m" "cols L (bitwise_or L m m') = cols L m"
    "rows L (CLAHE_apply L clipLimit tileGridSize m) = rows L m"
    "cols L (CLAHE_apply L clipLimit tileGridSize m) = cols L m"
    "rows L (Mat_32FC1 L h w f) = h" "cols L (Mat_32FC1 L h w f) = w"
  using assms unfolding opencv_ok_def same_size_def
  by (simp_all del: split_paired_All split_paired_Ex)

lemma opencv_ok_split:
  assumes "opencv_ok L" "i < length (split L m)"
  shows "rows L (split L m ! i) = rows L m" "cols L (split L m ! i) = cols L m"
proof -
  from assms(1) have "\<forall>ch\<in>set (split L m). same_size L ch m"
    by (simp add: opencv_ok_def)
  with assms(2) have "same_size L (split L m ! i) m" by simp
  then show "rows L (split L m ! i) = rows L m" "cols L (split L m ! i) = cols L m"
    by (simp_all add: same_size_def)
qed

lemma opencv_ok_channels:
  assumes "opencv_ok L"
  shows "length (split L (cvtColor L m COLOR_BGR2HSV)) = 3"
    "length (split L (cvtColor L m COLOR_BGR2Lab)) = 3"
proof -
  from assms have l: "\<And>m. length (split L m) = nat (channels L m)"
    and c: "\<And>m. channels L (cvtColor L m COLOR_BGR2HSV) = 3" "\<And>m. channels L (cvtColor L m COLOR_BGR2Lab) = 3"
    unfolding opencv_ok_def by blast+
  show "length (split L (cvtColor L m COLOR_BGR2HSV)) = 3" by (simp add: l c)
  show "length (split L (cvtColor L m COLOR_BGR2Lab)) = 3" by (simp add: l c)
qed

lemma collectQuads_mask:
  assumes "opencv_ok L" "5 \<le> rows L img" "5 \<le> cols L img"
    and "rows L msk = rows L img" "cols L msk = cols L img"
  shows "\<exists>new. collectQuads L msk imgArea gradMag candidates = Some (candidates @ new) \<and>
         list_all (pooled L imgArea gradMag) new"
  by (rule collectQuads_fits[OF assms(1)]) (simp_all add: assms)

lemma collectQuads_mask_None:
  assumes "opencv_ok L" "rows L img < 5 \<or> cols L img < 5"
    and "rows L msk = rows L img" "cols L msk = cols L img"
  shows "collectQuads L msk imgArea gradMag candidates = None"
  by (rule collectQuads_too_small[OF assms(1)]) (simp add: assms)

text \<open>
  Each strategy either faults or appends candidates that satisfy \<open>pooled\<close>; on an image
  of at least 5 rows and 5 columns it does not fault.
\<close>

lemma findSquaresMultiChannel_cases:
  "findSquaresMultiChannel L img imgArea gradMag candidates = None \<or>
   (\<exists>new. findSquaresMultiChannel L img imgArea gradMag candidates = Some (candidates @ new) \<and>
          list_all (pooled L imgArea gradMag) new)"
  unfolding findSquaresMultiChannel_def Let_def
  by (rule for_each_cases, rule cases_bind, rule collectQuads_cases,
      rule for_each_cases, rule collectQuads_cases)

lemma findSquaresMultiChannel_total:
  assumes "opencv_ok L" "5 \<le> rows L img" "5 \<le> cols L img"
  shows "\<exists>new. findSquaresMultiChannel L img imgArea gradMag candidates = Some (candidates @ new) \<and>
         list_all (pooled L imgArea gradMag) new"
  unfolding findSquaresMultiChannel_def Let_def
  apply (rule for_each_appends)
  apply (rule appends_bind)
   apply (rule collectQuads_mask[OF assms]; simp add: opencv_ok_sizes[OF assms(1)])
  apply (rule for_each_appends)
  apply (rule collectQuads_mask[OF assms]; simp add: opencv_ok_sizes[OF assms(1)])
  done

lemma findByMorphGradient_cases:
  "findByMorphGradient L img imgArea gradMag candidates = None \<or>
   (\<exists>new. findByMorphGradient L img imgArea gradMag candidates = Some (candidates @ new) \<and>
          list_all (pooled L imgArea gradMag) new)"
  unfolding findByMorphGradient_def Let_def
  by (rule for_each_cases, rule collectQuads_cases)

lemma findByMorphGradient_total:
  assumes "opencv_ok L" "5 \<le> rows L img" "5 \<le> cols L img"
  shows "\<exists>new. findByMorphGradient L img imgArea gradMag candidates = Some (candidates @ new) \<and>
         list_all (pooled L imgArea gradMag) new"
  unfolding findByMorphGradient_def Let_def
  apply (rule for_each_appends)
  apply (rule collectQuads_mask[OF assms]; simp add: opencv_ok_sizes[OF assms(1)])
  done

lemma findByMorphGradient_too_small:
  assumes "opencv_ok L" "rows L img < 5 \<or> cols L img < 5"
  shows "findByMorphGradient L img imgArea gradMag candidates = None"
proof -
  have "collectQuads L msk imgArea gradMag candidates = None"
    if "rows L msk = rows L img" "cols L msk = cols L img" for msk
    using that by (rule collectQuads_mask_None[OF assms])
  then show ?thesis
    by (simp add: findByMorphGradient_def Let_def opencv_ok_sizes[OF assms(1)])
qed

lemma findBySaturation_cases:
  "findBySaturation L bgr imgArea gradMag candidates = None \<or>
   (\<exists>new. findBySaturation L bgr imgArea gradMag candidates = Some (candidates @ new) \<and>
          list_all (pooled L imgArea gradMag) new)"
proof (cases "vec_at (split L (cvtColor L bgr COLOR_BGR2HSV)) 1")
  case None
  then show ?thesis by (simp add: findBySaturation_def)
next
  case (Some ch1)
  show ?thesis
    unfolding findBySaturation_def Let_def Some Option.bind.simps
    by (rule for_each_cases, rule collectQuads_cases)
qed

lemma findBySaturation_total:
  assumes "opencv_ok L" "5 \<le> rows L bgr" "5 \<le> cols L bgr"
  shows "\<exists>new. findBySaturation L bgr imgArea gradMag candidates = Some (candidates @ new) \<and>
         list_all (pooled L imgArea gradMag) new"
proof -
  let ?ch = "split L (cvtColor L bgr COLOR_BGR2HSV)"
  have len: "1 < length ?ch" by (simp add: opencv_ok_channels[OF assms(1)])
  then have ch1: "vec_at ?ch 1 = Some (?ch ! 1)" by (simp add: vec_at_def)
  have s1: "rows L (?ch ! Suc 0) = rows L bgr" "cols L (?ch ! Suc 0) = cols L bgr"
    using opencv_ok_split[OF assms(1) len] by (simp_all add: opencv_ok_sizes[OF assms(1)])
  note sz = opencv_ok_sizes[OF assms(1)] s1
  show ?thesis
    unfolding findBySaturation_def Let_def ch1 Option.bind.simps
    apply (rule for_each_appends)
    apply (rule collectQuads_mask[OF assms]; auto simp add: sz)
    done
qed

lemma LabEdges_round_cases:
  "(do {
      ch0 \<leftarrow> vec_at ch 0;
      ch1 \<leftarrow> vec_at ch 1;
      ch2 \<leftarrow> vec_at ch 2;
      collectQuads L (f ch0 ch1 ch2) imgArea gradMag cands
    }) = None \<or>
   (\<exists>new. (do {
      ch0 \<leftarrow> vec_at ch 0;
      ch1 \<leftarrow> vec_at ch 1;
      ch2 \<leftarrow> vec_at ch 2;
      collectQuads L (f ch0 ch1 ch2) imgArea gradMag cands
    }) = Some (cands @ new) \<and> list_all (pooled L imgArea gradMag) new)"
proof (cases "3 \<le> length ch")
  case True
  then have "0 < length ch" "1 < length ch" "2 < length ch" by linarith+
  then have "vec_at ch 0 = Some (ch ! 0)" "vec_at ch 1 = Some (ch ! 1)" "vec_at ch 2 = Some (ch ! 2)"
    unfolding vec_at_def by simp_all
  then show ?thesis
    using collectQuads_cases[of L "f (ch ! 0) (ch ! 1) (ch ! 2)" imgArea gradMag cands] by simp
next
  case False
  then have "vec_at ch 2 = None" by (simp add: vec_at_def)
  then have "(do {
      ch0 \<leftarrow> vec_at ch 0;
      ch1 \<leftarrow> vec_at ch 1;
      ch2 \<leftarrow> vec_at ch 2;
      collectQuads L (f ch0 ch1 ch2) imgArea gradMag cands
    }) = None"
    by (simp split: bind_splits)
  then show ?thesis ..
qed

lemma findByLabEdges_cases:
  "findByLabEdges L bgr imgArea gradMag candidates = None \<or>
   (\<exists>new. findByLabEdges L bgr imgArea gradMag candidates = Some (candidates @ new) \<and>
          list_all (pooled L imgArea gradMag) new)"
  unfolding findByLabEdges_def Let_def
  by (rule for_each_cases) (rule LabEdges_round_cases)

lemma findByLabEdges_total:
  assumes "opencv_ok L" "5 \<le> rows L bgr" "5 \<le> cols L bgr"
  shows "\<exists>new. findByLabEdges L bgr imgArea gradMag candidates = Some (candidates @ new) \<and>
         list_all (pooled L imgArea gradMag) new"
proof -
  let ?ch = "split L (cvtColor L bgr COLOR_BGR2Lab)"
  have len: "0 < length ?ch" "1 < length ?ch" "2 < length ?ch"
    by (simp_all add: opencv_ok_channels[OF assms(1)])
  then have v: "vec_at ?ch 0 = Some (?ch ! 0)" "vec_at ?ch 1 = Some (?ch ! 1)" "vec_at ?ch 2 = Some (?ch ! 2)"
    unfolding vec_at_def by simp_all
  have s1: "rows L (?ch ! Suc 0) = rows L bgr" "cols L (?ch ! Suc 0) = cols L bgr"
    using opencv_ok_split[OF assms(1) len(2)] by (simp_all add: opencv_ok_sizes[OF assms(1)])
  note sz = opencv_ok_sizes[OF assms(1)] s1
  show ?thesis
    unfolding findByLabEdges_def Let_def v Option.bind.simps
    apply (rule for_each_appends)
    apply (rule collectQuads_mask[OF assms]; simp add: sz)
    done
qed

lemma findByCLAHECanny_cases:
  "findByCLAHECanny L bgr imgArea gradMag candidates = None \<or>
   (\<exists>new. findByCLAHECanny L bgr imgArea gradMag candidates = Some (candidates @ new) \<and>
          list_all (pooled L imgArea gradMag) new)"
  unfolding findByCLAHECanny_def Let_def
  by (rule for_each_cases, rule collectQuads_cases)

lemma findByCLAHECanny_total:
  assumes "opencv_ok L" "5 \<le> rows L bgr" "5 \<le> cols L bgr"
  shows "\<exists>new. findByCLAHECanny L bgr imgArea gradMag candidates = Some (candidates @ new) \<and>
         list_all (pooled L imgArea gradMag) new"
  unfolding findByCLAHECanny_def Let_def
  apply (rule for_each_appends)
  apply (rule collectQuads_mask[OF assms]; simp add: opencv_ok_sizes[OF assms(1)])
  done

lemma range_step_bounds: "x \<in> set (range_step i stop step) \<Longrightarrow> i \<le> x \<and> x < stop"
proof (induction i stop step rule: range_step.induct)
  case (1 i stop step)
  show ?case
  proof (cases "i < stop \<and> 0 < step")
    case True
    with "1.prems" have "x = i \<or> x \<in> set (range_step (i + step) stop step)"
      by (subst (asm) range_step.simps) simp
    then show ?thesis
    proof
      assume "x = i" with True show ?thesis by simp
    next
      assume "x \<in> set (range_step (i + step) stop step)"
      with "1.IH"[OF True] True show ?thesis by simp
    qed
  next
    case False
    with "1.prems" show ?thesis by (subst (asm) range_step.simps) simp
  qed
qed

lemma range_step_Cons: "i < stop \<Longrightarrow> 0 < step \<Longrightarrow>
    range_step i stop step = i # range_step (i + step) stop step"
  by (subst range_step.simps) simp

lemma border_sample_Some:
  assumes "0 \<le> fst p" "fst p < rows L bgr" "0 \<le> snd p" "snd p < cols L bgr"
    and "0 \<le> fst q" "fst q < rows L bgr" "0 \<le> snd q" "snd q < cols L bgr"
  shows "\<exists>bSum gSum rSum. border_sample L bgr p q acc = Some (bSum, gSum, rSum, snd (snd (snd acc)) + 2)"
  using assms
  by (cases acc; cases "at_Vec3b L bgr (fst p) (snd p)"; cases "at_Vec3b L bgr (fst q) (snd q)")
     (simp add: border_sample_def Mat_at_Vec3b_def)

lemma border_loop_Some:
  assumes "\<And>a. a \<in> set xs \<Longrightarrow>
      0 \<le> fst (p a) \<and> fst (p a) < rows L bgr \<and> 0 \<le> snd (p a) \<and> snd (p a) < cols L bgr \<and>
      0 \<le> fst (q a) \<and> fst (q a) < rows L bgr \<and> 0 \<le> snd (q a) \<and> snd (q a) < cols L bgr"
  shows "\<exists>bSum gSum rSum. for_each (\<lambda>a. border_sample L bgr (p a) (q a)) xs acc =
           Some (bSum, gSum, rSum, snd (snd (snd acc)) + 2 * int (length xs))"
  using assms
proof (induction xs arbitrary: acc)
  case Nil
  show ?case by (cases acc) simp
next
  case (Cons a xs)
  from Cons.prems[of a] border_sample_Some[of "p a" L bgr "q a" acc]
  obtain b g r where s: "border_sample L bgr (p a) (q a) acc = Some (b, g, r, snd (snd (snd acc)) + 2)"
    by auto
  from Cons.IH[of "(b, g, r, snd (snd (snd acc)) + 2)"] Cons.prems
  obtain b' g' r' where "for_each (\<lambda>a. border_sample L bgr (p a) (q a)) xs (b, g, r, snd (snd (snd acc)) + 2) =
      Some (b', g', r', snd (snd (snd acc)) + 2 + 2 * int (length xs))"
    by auto
  with s show ?case by simp
qed

lemma findByColorDistance_cases:
  "findByColorDistance L bgr imgArea gradMag candidates = None \<or>
   (\<exists>new. findByColorDistance L bgr imgArea gradMag candidates = Some (candidates @ new) \<and>
          list_all (pooled L imgArea gradMag) new)"
proof -
  let ?E1 = "for_each (\<lambda>x. border_sample L bgr (0, x) (rows L bgr - 1, x)) (range_step 0 (cols L bgr) 2) (0, 0, 0, 0)"
  show ?thesis
  proof (cases ?E1)
    case None
    then show ?thesis by (simp add: findByColorDistance_def)
  next
    case (Some acc)
    let ?E2 = "for_each (\<lambda>y. border_sample L bgr (y, 0) (y, cols L bgr - 1)) (range_step 1 (rows L bgr - 1) 2) acc"
    show ?thesis
    proof (cases ?E2)
      case None
      with Some show ?thesis by (simp add: findByColorDistance_def)
    next
      case acc': (Some acc')
      obtain bSum gSum rSum n where a: "acc' = (bSum, gSum, rSum, n)" by (cases acc') auto
      show ?thesis
      proof (cases "n = 0")
        case True
        with Some acc' a show ?thesis by (simp add: findByColorDistance_def fdiv_def)
      next
        case False
        then have n0: "real_of_int n \<noteq> 0" by simp
        show ?thesis
          unfolding findByColorDistance_def Let_def Some acc' a Option.bind.simps prod.case
          by (simp only: fdiv_Some[OF n0] Option.bind.simps) (rule collectQuads_cases)
      qed
    qed
  qed
qed

lemma findByColorDistance_form:
  assumes "0 < rows L bgr" "0 < cols L bgr"
  shows "\<exists>f. findByColorDistance L bgr imgArea gradMag candidates =
     collectQuads L
       (morphologyEx L
          (threshold L (convertTo L (normalize L (Mat_32FC1 L (rows L bgr) (cols L bgr) f) 0 255 NORM_MINMAX) CV_8UC1)
             0 255 [THRESH_BINARY, THRESH_OTSU])
          MORPH_CLOSE (StructuringElement MORPH_RECT 9 9) 3)
       imgArea gradMag candidates"
proof -
  let ?xs = "range_step 0 (cols L bgr) 2" and ?ys = "range_step 1 (rows L bgr - 1) 2"
  have "\<exists>bSum gSum rSum. for_each (\<lambda>x. border_sample L bgr (0, x) (rows L bgr - 1, x)) ?xs (0, 0, 0, 0) =
           Some (bSum, gSum, rSum, snd (snd (snd (0::real, 0::real, 0::real, 0::int))) + 2 * int (length ?xs))"
  proof (rule border_loop_Some)
    fix a assume "a \<in> set ?xs"
    then have "0 \<le> a \<and> a < cols L bgr" by (rule range_step_bounds)
    with assms show "0 \<le> fst (0::int, a) \<and> fst (0::int, a) < rows L bgr \<and> 0 \<le> snd (0::int, a) \<and> snd (0::int, a) < cols L bgr \<and>
      0 \<le> fst (rows L bgr - 1, a) \<and> fst (rows L bgr - 1, a) < rows L bgr \<and>
      0 \<le> snd (rows L bgr - 1, a) \<and> snd (rows L bgr - 1, a) < cols L bgr"
      by simp
  qed
  then obtain b g r where E1: "for_each (\<lambda>x. border_sample L bgr (0, x) (rows L bgr - 1, x)) ?xs (0, 0, 0, 0) =
      Some (b, g, r, 2 * int (length ?xs))" by auto
  have "\<exists>bSum gSum rSum. for_each (\<lambda>y. border_sample L bgr (y, 0) (y, cols L bgr - 1)) ?ys (b, g, r, 2 * int (length ?xs)) =
           Some (bSum, gSum, rSum, snd (snd (snd (b, g, r, 2 * int (length ?xs)))) + 2 * int (length ?ys))"
  proof (rule border_loop_Some)
    fix a assume "a \<in> set ?ys"
    then have "1 \<le> a \<and> a < rows L bgr - 1" by (rule range_step_bounds)
    with assms show "0 \<le> fst (a, 0::int) \<and> fst (a, 0::int) < rows L bgr \<and> 0 \<le> snd (a, 0::int) \<and> snd (a, 0::int) < cols L bgr \<and>
      0 \<le> fst (a, cols L bgr - 1) \<and> fst (a, cols L bgr - 1) < rows L bgr \<and>
      0 \<le> snd (a, cols L bgr - 1) \<and> snd (a, cols L bgr - 1) < cols L bgr"
      by simp
  qed
  then obtain b' g' r' where E2: "for_each (\<lambda>y. border_sample L bgr (y, 0) (y, cols L bgr - 1)) ?ys (b, g, r, 2 * int (length ?xs)) =
      Some (b', g', r', 2 * int (length ?xs) + 2 * int (length ?ys))" by auto
  have "?xs \<noteq> []" using assms(2) by (simp add: range_step_Cons)
  then have "0 < int (length ?xs)" by simp
  then have "0 < 2 * int (length ?xs) + 2 * int (length ?ys)" by linarith
  then have n0: "real_of_int (2 * int (length ?xs) + 2 * int (length ?ys)) \<noteq> 0" by linarith
  show ?thesis
    unfolding findByColorDistance_def Let_def E1 E2 Option.bind.simps prod.case
    by (simp only: fdiv_Some[OF n0] Option.bind.simps) (rule exI, rule refl)
qed

lemma findByColorDistance_total:
  assumes "opencv_ok L" "5 \<le> rows L bgr" "5 \<le> cols L bgr"
  shows "\<exists>new. findByColorDistance L bgr imgArea gradMag candidates = Some (candidates @ new) \<and>
         list_all (pooled L imgArea gradMag) new"
proof -
  have "0 < rows L bgr" "0 < cols L bgr" using assms(2,3) by linarith+
  from findByColorDistance_form[OF this, of imgArea gradMag candidates] obtain f where
    f: "findByColorDistance L bgr imgArea gradMag candidates =
     collectQuads L
       (morphologyEx L
          (threshold L (convertTo L (normalize L (Mat_32FC1 L (rows L bgr) (cols L bgr) f) 0 255 NORM_MINMAX) CV_8UC1)
             0 255 [THRESH_BINARY, THRESH_OTSU])
          MORPH_CLOSE (StructuringElement MORPH_RECT 9 9) 3)
       imgArea gradMag candidates" by blast
  show ?thesis
    unfolding f
    by (rule collectQuads_mask[OF assms]; simp add: opencv_ok_sizes[OF assms(1)])
qed

lemma detectDocument_candidates_cases:
  "detectDocument_candidates L small imgArea gradMag = None \<or>
   (\<exists>pool. detectDocument_candidates L small imgArea gradMag = Some pool \<and>
           list_all (pooled L imgArea gradMag) pool)"
proof -
  have "detectDocument_candidates L small imgArea gradMag = None \<or>
     (\<exists>new. detectDocument_candidates L small imgArea gradMag = Some ([] @ new) \<and>
            list_all (pooled L imgArea gradMag) new)"
    unfolding detectDocument_candidates_def
    by (intro cases_bind findSquaresMultiChannel_cases findByMorphGradient_cases findBySaturation_cases
          findByColorDistance_cases findByLabEdges_cases findByCLAHECanny_cases)
  then show ?thesis by simp
qed

lemma detectDocument_candidates_total:
  assumes "opencv_ok L" "5 \<le> rows L small" "5 \<le> cols L small"
  shows "\<exists>pool. detectDocument_candidates L small imgArea gradMag = Some pool \<and>
           list_all (pooled L imgArea gradMag) pool"
proof -
  obtain n1 where n1: "findSquaresMultiChannel L small imgArea gradMag [] = Some n1"
    using findSquaresMultiChannel_total[OF assms, of imgArea gradMag "[]"] by auto
  obtain n2 where n2: "findByMorphGradient L small imgArea gradMag n1 = Some n2"
    using findByMorphGradient_total[OF assms, of imgArea gradMag n1] by auto
  obtain n3 where n3: "findBySaturation L small imgArea gradMag n2 = Some n3"
    using findBySaturation_total[OF assms, of imgArea gradMag n2] by auto
  obtain n4 where n4: "findByColorDistance L small imgArea gradMag n3 = Some n4"
    using findByColorDistance_total[OF assms, of imgArea gradMag n3] by auto
  obtain n5 where n5: "findByLabEdges L small imgArea gradMag n4 = Some n5"
    using findByLabEdges_total[OF assms, of imgArea gradMag n4] by auto
  obtain n6 where n6: "findByCLAHECanny L small imgArea gradMag n5 = Some n6"
    using findByCLAHECanny_total[OF assms, of imgArea gradMag n5] by auto
  have "detectDocument_candidates L small imgArea gradMag = Some n6"
    by (simp only: detectDocument_candidates_def n1 n2 n3 n4 n5 n6 Option.bind.simps)
  with detectDocument_candidates_cases[of L small imgArea gradMag] show ?thesis by auto
qed

lemma detectDocument_candidates_too_small:
  assumes "opencv_ok L" "rows L small < 5 \<or> cols L small < 5"
  shows "detectDocument_candidates L small imgArea gradMag = None"
proof (cases "findSquaresMultiChannel L small imgArea gradMag []")
  case None
  then show ?thesis by (simp add: detectDocument_candidates_def)
next
  case (Some c1)
  then show ?thesis
    by (simp add: detectDocument_candidates_def findByMorphGradient_too_small[OF assms])
qed

lemma map_each_eq:
  assumes "\<And>a. a \<in> set xs \<Longrightarrow> f a = Some (g a)"
  shows "map_each f xs = Some (map g xs)"
  using assms by (induction xs) simp_all

lemma rescore_eq: "imgArea \<noteq> 0 \<Longrightarrow> rescore imgArea c = Some (spec_combined imgArea c)"
  by (simp add: rescore_def fdiv_def spec_combined_def)

lemma scaleBack_eq: "scale \<noteq> 0 \<Longrightarrow> scaleBack scale pt = Some (unscale scale pt)"
  by (simp add: scaleBack_def fdiv_def unscale_def)

lemma orderPoints_total: "4 \<le> length pts \<Longrightarrow> \<exists>r. orderPoints pts = Some r"
proof -
  assume len: "4 \<le> length pts"
  let ?s = "map (\<lambda>p. px p + py p) (take 4 pts)" and ?d = "map (\<lambda>p. py p - px p) (take 4 pts)"
  have ne: "?s \<noteq> []" "?d \<noteq> []" using len by auto
  have l4: "length ?s = 4" "length ?d = 4" using len by simp_all
  have "min_element (<) ?s < length pts" "max_element (<) ?s < length pts"
       "min_element (<) ?d < length pts" "max_element (<) ?d < length pts"
    using min_element_spec[of ?s "\<lambda>x. x", OF ne(1)] max_element_spec[of ?s "\<lambda>x. x", OF ne(1)]
          min_element_spec[of ?d "\<lambda>x. x", OF ne(2)] max_element_spec[of ?d "\<lambda>x. x", OF ne(2)] len l4
    by simp_all
  then show ?thesis using len
    by (simp add: orderPoints_def vec_at_def Let_def)
qed

lemma std_sort_ok_candidates:
  assumes "std_sort_ok L"
  shows "length (sort_candidates L (\<lambda>a b. edgeScore a > edgeScore b) xs) = length xs"
    and "set (sort_candidates L (\<lambda>a b. edgeScore a > edgeScore b) xs) = set xs"
    and "mset (sort_candidates L (\<lambda>a b. edgeScore a > edgeScore b) xs) = mset xs"
    and "sorted_wrt (\<lambda>a b. \<not> edgeScore b > edgeScore a) (sort_candidates L (\<lambda>a b. edgeScore a > edgeScore b) xs)"
proof -
  from assms have sp: "sorted_permutation (\<lambda>a b. edgeScore a > edgeScore b) xs
      (sort_candidates L (\<lambda>a b. edgeScore a > edgeScore b) xs)"
    unfolding std_sort_ok_def by blast
  then show m: "mset (sort_candidates L (\<lambda>a b. edgeScore a > edgeScore b) xs) = mset xs"
    by (simp add: sorted_permutation_def)
  from m show "length (sort_candidates L (\<lambda>a b. edgeScore a > edgeScore b) xs) = length xs"
    by (rule mset_eq_length)
  from m show "set (sort_candidates L (\<lambda>a b. edgeScore a > edgeScore b) xs) = set xs"
    by (rule mset_eq_setD)
  from sp show "sorted_wrt (\<lambda>a b. \<not> edgeScore b > edgeScore a) (sort_candidates L (\<lambda>a b. edgeScore a > edgeScore b) xs)"
    by (simp add: sorted_permutation_def)
qed

lemma read_through_best_in:
  assumes "candidates \<noteq> []" "std_sort_ok L"
  shows "read_through_best L imgArea candidates \<in> spec_combined imgArea ` set candidates"
proof -
  let ?r = "map (spec_combined imgArea) candidates"
  have "?r \<noteq> []" using assms by simp
  then have "best_position ?r < length ?r"
    unfolding best_position_def using max_element_spec[of ?r edgeScore] by blast
  then have "sort_candidates L (\<lambda>a b. edgeScore a > edgeScore b) ?r ! best_position ?r
      \<in> set (sort_candidates L (\<lambda>a b. edgeScore a > edgeScore b) ?r)"
    by (simp add: std_sort_ok_candidates(1)[OF assms(2)])
  then show ?thesis
    by (simp add: read_through_best_def Let_def std_sort_ok_candidates(2)[OF assms(2)])
qed

lemma detectDocument_select_eq:
  assumes "candidates \<noteq> []" "imgArea \<noteq> 0" "scale \<noteq> 0" "std_sort_ok L"
  shows "detectDocument_select L imgArea scale candidates =
           orderPoints (map (unscale scale) (quad (read_through_best L imgArea candidates)))"
proof -
  let ?r = "map (spec_combined imgArea) candidates"
  have r: "map_each (rescore imgArea) candidates = Some ?r"
    by (rule map_each_eq) (simp add: rescore_eq assms)
  have "?r \<noteq> []" using assms by simp
  then have lt: "best_position ?r < length ?r"
    unfolding best_position_def using max_element_spec[of ?r edgeScore] by blast
  have v: "vec_at (sort_candidates L (\<lambda>a b. edgeScore a > edgeScore b) ?r) (max_element (\<lambda>a b. edgeScore a < edgeScore b) ?r)
      = Some (read_through_best L imgArea candidates)"
    using lt by (simp add: vec_at_def std_sort_ok_candidates(1)[OF assms(4)] read_through_best_def
          best_position_def Let_def)
  have m: "map_each (scaleBack scale) (quad (read_through_best L imgArea candidates)) =
      Some (map (unscale scale) (quad (read_through_best L imgArea candidates)))"
    by (rule map_each_eq) (simp add: scaleBack_eq assms)
  show ?thesis
    using assms(1) by (simp only: detectDocument_select_def if_False r Option.bind.simps Let_def v m)
qed

subsection \<open>Validation and selection\<close>

lemma abs_div_sqrt_less:
  fixes n D c :: real
  assumes "0 < D" "0 < c"
  shows "\<bar>n / sqrt D\<bar> < c \<longleftrightarrow> n\<^sup>2 < c\<^sup>2 * D"
proof -
  have sD: "0 < sqrt D" using assms(1) by simp
  have "\<bar>n / sqrt D\<bar> = \<bar>n\<bar> / sqrt D" using sD by simp
  also have "\<dots> < c \<longleftrightarrow> \<bar>n\<bar> < c * sqrt D" using sD by (simp add: pos_divide_less_eq)
  also have "\<dots> \<longleftrightarrow> \<bar>n\<bar>\<^sup>2 < (c * sqrt D)\<^sup>2"
  proof
    assume "\<bar>n\<bar> < c * sqrt D"
    then show "\<bar>n\<bar>\<^sup>2 < (c * sqrt D)\<^sup>2" by (intro power_strict_mono) simp_all
  next
    assume "\<bar>n\<bar>\<^sup>2 < (c * sqrt D)\<^sup>2"
    moreover have "0 \<le> c * sqrt D" using assms sD by simp
    ultimately show "\<bar>n\<bar> < c * sqrt D" by (rule power2_less_imp_less)
  qed
  finally show ?thesis using assms by (simp add: power_mult_distrib)
qed

lemma maxCos_step_2:
  assumes "length q = 4"
  shows "maxCos_step q 2 m = Some (max m \<bar>spec_corner_cos q 1\<bar>)"
proof -
  have i: "(2::nat) mod 4 = 2" "(2::nat) - 2 = 0" "(2::nat) - 1 = 1" "(1 + 1) mod 4 = (2::nat)" "(1 + 3) mod 4 = (0::nat)"
    by simp_all
  have v: "vec_at q 2 = Some (q ! 2)" "vec_at q 0 = Some (q ! 0)" "vec_at q 1 = Some (q ! 1)"
    using assms by (simp_all add: vec_at_def)
  show ?thesis
    by (simp only: maxCos_step_def i v Option.bind.simps angleCos_Some spec_corner_cos_def Let_def)
       (simp add: max_def not_less)
qed

lemma maxCos_step_3:
  assumes "length q = 4"
  shows "maxCos_step q 3 m = Some (max m \<bar>spec_corner_cos q 2\<bar>)"
proof -
  have i: "(3::nat) mod 4 = 3" "(3::nat) - 2 = 1" "(3::nat) - 1 = 2" "(2 + 1) mod 4 = (3::nat)" "(2 + 3) mod 4 = (1::nat)"
    by simp_all
  have v: "vec_at q 3 = Some (q ! 3)" "vec_at q 1 = Some (q ! 1)" "vec_at q 2 = Some (q ! 2)"
    using assms by (simp_all add: vec_at_def)
  show ?thesis
    by (simp only: maxCos_step_def i v Option.bind.simps angleCos_Some spec_corner_cos_def Let_def)
       (simp add: max_def not_less)
qed

lemma maxCos_step_4:
  assumes "length q = 4"
  shows "maxCos_step q 4 m = Some (max m \<bar>spec_corner_cos q 3\<bar>)"
proof -
  have i: "(4::nat) mod 4 = 0" "(4::nat) - 2 = 2" "(4::nat) - 1 = 3" "(3 + 1) mod 4 = (0::nat)" "(3 + 3) mod 4 = (2::nat)"
    by simp_all
  have v: "vec_at q 0 = Some (q ! 0)" "vec_at q 2 = Some (q ! 2)" "vec_at q 3 = Some (q ! 3)"
    using assms by (simp_all add: vec_at_def)
  show ?thesis
    by (simp only: maxCos_step_def i v Option.bind.simps angleCos_Some spec_corner_cos_def Let_def)
       (simp add: max_def not_less)
qed

lemma maxCos_loop_eq:
  assumes "length q = 4"
  shows "for_each (maxCos_step q) [2 ..< 5] 0 =
     Some (max (max (max 0 \<bar>spec_corner_cos q 1\<bar>) \<bar>spec_corner_cos q 2\<bar>) \<bar>spec_corner_cos q 3\<bar>)"
proof -
  have idx: "[2 ..< 5] = [2, 3, 4::nat]" by (simp add: upt_rec)
  show ?thesis unfolding idx
    by (simp only: for_each.simps maxCos_step_2[OF assms] maxCos_step_3[OF assms] maxCos_step_4[OF assms] Option.bind.simps)
qed

lemma isGoodQuad_eq:
  assumes "length q = 4"
  shows "isGoodQuad L q imgArea imgW imgH =
     Some (imgArea * (5 / 100) \<le> contourArea L q \<and> contourArea L q \<le> imgArea * (85 / 100) \<and>
           isContourConvex L q \<and>
           length (filter (spec_within_border 5 imgW imgH) q) < 3 \<and>
           \<bar>spec_corner_cos q 1\<bar> < 4 / 10 \<and> \<bar>spec_corner_cos q 2\<bar> < 4 / 10 \<and> \<bar>spec_corner_cos q 3\<bar> < 4 / 10)"
proof -
  let ?m = "max (max (max 0 \<bar>spec_corner_cos q 1\<bar>) \<bar>spec_corner_cos q 2\<bar>) \<bar>spec_corner_cos q 3\<bar>"
  have m: "?m < 4 / 10 \<longleftrightarrow>
      \<bar>spec_corner_cos q 1\<bar> < 4 / 10 \<and> \<bar>spec_corner_cos q 2\<bar> < 4 / 10 \<and> \<bar>spec_corner_cos q 3\<bar> < 4 / 10"
    by (simp only: max_less_iff_conj) simp
  have b: "(3 \<le> borderCount_loop 5 imgW imgH q 0) \<longleftrightarrow> \<not> length (filter (spec_within_border 5 imgW imgH) q) < 3"
    by (simp add: borderCount_loop_eq onBorder_spec not_less)
  show ?thesis
    by (simp only: isGoodQuad_def Let_def maxCos_loop_eq[OF assms] Option.bind.simps m b)
       (simp add: not_less not_le)
qed

lemma c_trunc_of_int: "c_trunc (real_of_int n) = n"
  by (simp add: c_trunc_def)


lemma float_interpolate_0:
  assumes "\<bar>a\<bar> < 2 ^ 24"
  shows "float_interpolate a b n 0 = a"
  by (simp add: float_interpolate_def f32_0 f32_of_int[OF assms] c_trunc_of_int)

lemma float_edge_samples_hd:
  assumes "\<bar>px p1\<bar> < 2 ^ 24" "\<bar>py p1\<bar> < 2 ^ 24"
  shows "\<exists>rest. float_edge_samples p1 p2 = p1 # rest"
proof -
  let ?n = "max 10 (c_trunc (cv_norm (Point_minus p2 p1)))"
  have "0 < nat ?n" by simp
  then have "[0 ..< nat ?n] = 0 # [1 ..< nat ?n]" by (simp add: upt_conv_Cons)
  moreover have "float_sample_point p1 p2 ?n 0 = p1"
    by (simp add: float_sample_point_def float_interpolate_0[OF assms(1)] float_interpolate_0[OF assms(2)])
  ultimately show ?thesis by (simp add: float_edge_samples_def Let_def)
qed

lemma float_quad_samples_hd:
  assumes "\<bar>px (q ! 0)\<bar> < 2 ^ 24" "\<bar>py (q ! 0)\<bar> < 2 ^ 24"
  shows "\<exists>rest. float_quad_samples q = (q ! 0) # rest"
proof -
  have idx: "[0 ..< 4] = [0, 1, 2, 3::nat]" by (simp add: upt_rec)
  obtain rest where "float_edge_samples (q ! 0) (q ! ((0 + 1) mod 4)) = (q ! 0) # rest"
    using float_edge_samples_hd[OF assms] by blast
  then show ?thesis by (simp add: float_quad_samples_def idx)
qed

lemma den_pos: "0 < (a * a + b * b) * (c * c + d * d) + 1 / 10 ^ 10" for a b c d :: real
proof -
  have "0 \<le> (a * a + b * b) * (c * c + d * d)" by (simp add: mult_nonneg_nonneg)
  moreover have "(0::real) < 1 / 10 ^ 10" by simp
  ultimately show ?thesis by (rule add_nonneg_pos)
qed

lemma corner_ok_iff:
  "spec_corner_ok q k \<longleftrightarrow>
     (let p0 = q ! k; p1 = q ! ((k + 1) mod 4); p2 = q ! ((k + 3) mod 4);
          dx1 = real_of_int (px p1 - px p0); dy1 = real_of_int (py p1 - py p0);
          dx2 = real_of_int (px p2 - px p0); dy2 = real_of_int (py p2 - py p0)
      in 25 * (dx1 * dx2 + dy1 * dy2)\<^sup>2 < 4 * ((dx1 * dx1 + dy1 * dy1) * (dx2 * dx2 + dy2 * dy2) + 1 / 10 ^ 10))"
proof -
  have c: "((4::real) / 10)\<^sup>2 = 4 / 25" by (simp add: power2_eq_square)
  have e: "n\<^sup>2 < 4 / 25 * D \<longleftrightarrow> 25 * n\<^sup>2 < 4 * D" for n D :: real by auto
  have "\<bar>n / sqrt D\<bar> < 4 / 10 \<longleftrightarrow> 25 * n\<^sup>2 < 4 * D" if "0 < D" for n D :: real
    using abs_div_sqrt_less[OF that, of "4 / 10" n] by (simp only: c e)
  then show ?thesis
    unfolding spec_corner_ok_def spec_corner_cos_def Let_def using den_pos by blast
qed

lemma isGoodQuad_eq':
  assumes "length q = 4"
  shows "isGoodQuad L q imgArea imgW imgH =
     Some (imgArea * (5 / 100) \<le> contourArea L q \<and> contourArea L q \<le> imgArea * (85 / 100) \<and>
           isContourConvex L q \<and>
           length (filter (spec_within_border 5 imgW imgH) q) < 3 \<and>
           spec_corner_ok q 1 \<and> spec_corner_ok q 2 \<and> spec_corner_ok q 3)"
  by (simp only: isGoodQuad_eq[OF assms] spec_corner_ok_def)

lemma filter_length_mono:
  assumes "\<And>x. P x \<Longrightarrow> Q x"
  shows "length (filter P xs) \<le> length (filter Q xs)"
  using assms by (induction xs) auto

lemma isGoodQuad_border_reject:
  assumes "3 \<le> length (filter (spec_within_border 5 imgW imgH) q)"
  shows "isGoodQuad L q imgArea imgW imgH = Some False"
proof -
  have "3 \<le> borderCount_loop 5 imgW imgH q 0"
    using assms by (simp add: borderCount_loop_eq onBorder_spec)
  then show ?thesis
    by (simp only: isGoodQuad_def Let_def if_True split: if_split) simp
qed

lemma within_3_imp_5: "spec_within_border 3 W H p \<Longrightarrow> spec_within_border 5 W H p"
  by (auto simp: spec_within_border_def)

lemma detectDocument_resize_eq:
  "detectDocument_resize L bgr =
     Some (if max (rows L bgr) (cols L bgr) > 600
           then (resize L bgr (f64 (600 / real_of_int (max (rows L bgr) (cols L bgr))))
                   (f64 (600 / real_of_int (max (rows L bgr) (cols L bgr)))) INTER_AREA,
                 f64 (600 / real_of_int (max (rows L bgr) (cols L bgr))))
           else (bgr, 1))"
  by (simp add: detectDocument_resize_def TARGET_def fdiv_def)

lemma detectDocument_resize_scale:
  assumes "detectDocument_resize L bgr = Some (small, scale)"
  shows "scale \<noteq> 0"
proof (cases "max (rows L bgr) (cols L bgr) > 600")
  case True
  then have "0 < real_of_int (max (rows L bgr) (cols L bgr))" by simp
  then have "600 / real_of_int (max (rows L bgr) (cols L bgr)) \<noteq> 0" by simp
  then have "f64 (600 / real_of_int (max (rows L bgr) (cols L bgr))) \<noteq> 0" by (rule f64_nonzero)
  with True assms show ?thesis unfolding detectDocument_resize_eq by simp
next
  case False
  with assms show ?thesis unfolding detectDocument_resize_eq by simp
qed



lemma read_through_best_quad:
  assumes "candidates \<noteq> []" "list_all (pooled L imgArea gradMag) candidates" "std_sort_ok L"
  shows "\<exists>c\<in>set candidates. quad (read_through_best L imgArea' candidates) = quad c \<and> length (quad c) = 4"
proof -
  from read_through_best_in[OF assms(1,3), of imgArea'] obtain c where
    c: "c \<in> set candidates" "read_through_best L imgArea' candidates = spec_combined imgArea' c" by blast
  from assms(2) c(1) have "length (quad c) = 4" by (auto simp: list_all_iff pooled_def)
  with c show ?thesis by (auto simp: spec_combined_def)
qed

lemma detectDocument_select_result:
  assumes "list_all (pooled L A gradMag) candidates" "imgArea \<noteq> 0" "scale \<noteq> 0" "std_sort_ok L"
  shows "\<exists>r. detectDocument_select L imgArea scale candidates = Some r \<and>
             (r = [] \<longleftrightarrow> candidates = []) \<and> (candidates \<noteq> [] \<longrightarrow> length r = 4)"
proof (cases "candidates = []")
  case True
  then show ?thesis by (simp add: detectDocument_select_def)
next
  case False
  from read_through_best_quad[OF False assms(1,4), of imgArea]
  have len: "length (map (unscale scale) (quad (read_through_best L imgArea candidates))) = 4" by auto
  then obtain r where r: "orderPoints (map (unscale scale) (quad (read_through_best L imgArea candidates))) = Some r"
    using orderPoints_total[of "map (unscale scale) (quad (read_through_best L imgArea candidates))"] by auto
  from orderPoints_spec[OF len r] have "length r = 4" by blast
  with r False show ?thesis
    by (auto simp: detectDocument_select_eq[OF False assms(2,3,4)])
qed

lemma quadToJni_result:
  assumes "r = [] \<or> length r = 4"
  shows "\<exists>j. quadToJni r = Some j \<and> (j = nullptr \<longleftrightarrow> r = []) \<and>
             (r \<noteq> [] \<longrightarrow> (\<exists>fs. j = FloatArray fs \<and> length fs = 8))"
  using assms by (auto simp: quadToJni_def vec_at_def)

lemma map_each_None: "f a = None \<Longrightarrow> map_each f (a # as) = None"
  by simp

lemma detectDocument_select_faults:
  assumes "candidates \<noteq> []"
  shows "detectDocument_select L 0 scale candidates = None"
proof -
  from assms obtain c cs where "candidates = c # cs" by (cases candidates) auto
  then show ?thesis
    by (simp add: detectDocument_select_def rescore_def fdiv_def)
qed

lemma detectDocument_nonempty_result:
  assumes "detectDocument L bgr = Some r" "r \<noteq> []" "std_sort_ok L"
  shows "\<exists>pts. length pts = 4 \<and> orderPoints pts = Some r"
proof -
  obtain small scale where rs: "detectDocument_resize L bgr = Some (small, scale)"
    unfolding detectDocument_resize_eq by (cases "max (rows L bgr) (cols L bgr) > 600") auto
  let ?A = "real_of_int (rows L small * cols L small)"
  let ?G = "detectDocument_gradMag L small"
  have "detectDocument_candidates L small ?A ?G \<noteq> None"
  proof
    assume "detectDocument_candidates L small ?A ?G = None"
    then have "detectDocument L bgr = None"
      by (simp only: detectDocument_def rs Option.bind.simps prod.case Let_def)
    with assms(1) show False by simp
  qed
  with detectDocument_candidates_cases[of L small ?A ?G] obtain pool where
    pool: "detectDocument_candidates L small ?A ?G = Some pool" "list_all (pooled L ?A ?G) pool" by blast
  have sel: "detectDocument_select L ?A scale pool = Some r"
    using assms(1) by (simp only: detectDocument_def rs Option.bind.simps prod.case Let_def pool(1))
  have ne: "pool \<noteq> []"
    using sel assms(2) by (auto simp: detectDocument_select_def)
  have A0: "?A \<noteq> 0"
    using sel detectDocument_select_faults[OF ne, of L scale] by (cases "?A = 0") auto
  have s0: "scale \<noteq> 0" using detectDocument_resize_scale[OF rs] by simp
  let ?pts = "map (unscale scale) (quad (read_through_best L ?A pool))"
  have "orderPoints ?pts = Some r"
    using sel by (simp only: detectDocument_select_eq[OF ne A0 s0 assms(3)])
  moreover have "length ?pts = 4"
    using read_through_best_quad[OF ne pool(2) assms(3), of ?A] by auto
  ultimately show ?thesis by blast
qed

lemma orderPoints_slots:
  assumes "length pts = 4"
  shows "\<exists>i0 i1 i2 i3.
      orderPoints pts = Some [pts ! i0, pts ! i1, pts ! i2, pts ! i3] \<and>
      i0 < 4 \<and> i1 < 4 \<and> i2 < 4 \<and> i3 < 4 \<and>
      (\<forall>j<4. px (pts ! i0) + py (pts ! i0) \<le> px (pts ! j) + py (pts ! j)) \<and>
      (\<forall>j<i0. px (pts ! i0) + py (pts ! i0) < px (pts ! j) + py (pts ! j)) \<and>
      (\<forall>j<4. px (pts ! j) + py (pts ! j) \<le> px (pts ! i2) + py (pts ! i2)) \<and>
      (\<forall>j<i2. px (pts ! j) + py (pts ! j) < px (pts ! i2) + py (pts ! i2)) \<and>
      (\<forall>j<4. py (pts ! i1) - px (pts ! i1) \<le> py (pts ! j) - px (pts ! j)) \<and>
      (\<forall>j<i1. py (pts ! i1) - px (pts ! i1) < py (pts ! j) - px (pts ! j)) \<and>
      (\<forall>j<4. py (pts ! j) - px (pts ! j) \<le> py (pts ! i3) - px (pts ! i3)) \<and>
      (\<forall>j<i3. py (pts ! j) - px (pts ! j) < py (pts ! i3) - px (pts ! i3))"
proof -
  let ?s = "map (\<lambda>p. px p + py p) pts" and ?d = "map (\<lambda>p. py p - px p) pts"
  have ne: "?s \<noteq> []" "?d \<noteq> []" using assms by auto
  note smin = min_element_spec[of ?s "\<lambda>x. x", OF ne(1)]
  note smax = max_element_spec[of ?s "\<lambda>x. x", OF ne(1)]
  note dmin = min_element_spec[of ?d "\<lambda>x. x", OF ne(2)]
  note dmax = max_element_spec[of ?d "\<lambda>x. x", OF ne(2)]
  let ?i0 = "min_element (<) ?s" and ?i2 = "max_element (<) ?s"
  let ?i1 = "min_element (<) ?d" and ?i3 = "max_element (<) ?d"
  have lt: "?i0 < 4" "?i2 < 4" "?i1 < 4" "?i3 < 4"
    using smin smax dmin dmax assms by simp_all
  have r: "orderPoints pts = Some [pts ! ?i0, pts ! ?i1, pts ! ?i2, pts ! ?i3]"
    using assms lt by (simp add: orderPoints_def vec_at_def Let_def)
  have 0: "\<forall>j<4. px (pts ! ?i0) + py (pts ! ?i0) \<le> px (pts ! j) + py (pts ! j)"
          "\<forall>j<?i0. px (pts ! ?i0) + py (pts ! ?i0) < px (pts ! j) + py (pts ! j)"
    using smin lt assms by auto
  have 2: "\<forall>j<4. px (pts ! j) + py (pts ! j) \<le> px (pts ! ?i2) + py (pts ! ?i2)"
          "\<forall>j<?i2. px (pts ! j) + py (pts ! j) < px (pts ! ?i2) + py (pts ! ?i2)"
    using smax lt assms by auto
  have 1: "\<forall>j<4. py (pts ! ?i1) - px (pts ! ?i1) \<le> py (pts ! j) - px (pts ! j)"
          "\<forall>j<?i1. py (pts ! ?i1) - px (pts ! ?i1) < py (pts ! j) - px (pts ! j)"
    using dmin lt assms by auto
  have 3: "\<forall>j<4. py (pts ! j) - px (pts ! j) \<le> py (pts ! ?i3) - px (pts ! ?i3)"
          "\<forall>j<?i3. py (pts ! j) - px (pts ! j) < py (pts ! ?i3) - px (pts ! ?i3)"
    using dmax lt assms by auto
  show ?thesis
    using r lt 0 1 2 3 by blast
qed

lemma best_position_first_max:
  assumes "rescored \<noteq> []"
  shows "best_position rescored < length rescored \<and>
         (\<forall>j<length rescored. edgeScore (rescored ! j) \<le> edgeScore (rescored ! best_position rescored)) \<and>
         (\<forall>j<best_position rescored. edgeScore (rescored ! j) < edgeScore (rescored ! best_position rescored))"
  unfolding best_position_def by (rule max_element_spec[OF assms])

text \<open>
  In a vector sorted in descending order of a key, position \<open>n\<close> holds an element whose
  key is below \<open>v\<close> whenever at most \<open>n\<close> elements have a key of \<open>v\<close> or more.
\<close>

lemma sorted_descending_position:
  fixes key :: "'a \<Rightarrow> real"
  assumes sp: "sorted_permutation (\<lambda>a b. key a > key b) xs ys"
    and n: "n < length xs"
    and few: "length (filter (\<lambda>c. v \<le> key c) xs) \<le> n"
  shows "key (ys ! n) < v"
proof (rule ccontr)
  assume "\<not> key (ys ! n) < v"
  then have v: "v \<le> key (ys ! n)" by simp
  from sp have m: "mset ys = mset xs" and s: "sorted_wrt (\<lambda>a b. \<not> key b > key a) ys"
    by (simp_all add: sorted_permutation_def)
  from m have len: "length ys = length xs" by (rule mset_eq_length)
  have "v \<le> key (ys ! i)" if "i < Suc n" for i
  proof (cases "i = n")
    case True
    with v show ?thesis by simp
  next
    case False
    with that have "i < n" by simp
    with s n len have "\<not> key (ys ! n) > key (ys ! i)" by (simp add: sorted_wrt_iff_nth_less)
    with v show ?thesis by simp
  qed
  then have "\<forall>c\<in>set (take (Suc n) ys). v \<le> key c"
    using n len by (auto simp: in_set_conv_nth)
  then have "filter (\<lambda>c. v \<le> key c) (take (Suc n) ys) = take (Suc n) ys" by simp
  then have "length (filter (\<lambda>c. v \<le> key c) (take (Suc n) ys)) = Suc n"
    using n len by simp
  moreover have "length (filter (\<lambda>c. v \<le> key c) ys) =
      length (filter (\<lambda>c. v \<le> key c) (take (Suc n) ys)) + length (filter (\<lambda>c. v \<le> key c) (drop (Suc n) ys))"
    by (metis append_take_drop_id filter_append length_append)
  moreover have "length (filter (\<lambda>c. v \<le> key c) ys) = length (filter (\<lambda>c. v \<le> key c) xs)"
  proof -
    have "mset (filter (\<lambda>c. v \<le> key c) ys) = mset (filter (\<lambda>c. v \<le> key c) xs)"
      by (simp only: mset_filter m)
    then show ?thesis by (rule mset_eq_length)
  qed
  ultimately show False using few by linarith
qed

lemma read_through_best_below:
  assumes ok: "std_sort_ok L" and ne: "candidates \<noteq> []" and A: "imgArea \<noteq> 0"
    and few: "length (filter (\<lambda>c. v \<le> edgeScore c) (map (spec_combined imgArea) candidates))
                \<le> best_position (map (spec_combined imgArea) candidates)"
  shows "edgeScore (read_through_best L imgArea candidates) < v"
proof -
  let ?r = "map (spec_combined imgArea) candidates"
  have "?r \<noteq> []" using ne by simp
  then have lt: "best_position ?r < length ?r"
    unfolding best_position_def using max_element_spec[of ?r edgeScore] by blast
  from ok have sp: "sorted_permutation (\<lambda>a b. edgeScore a > edgeScore b) ?r
      (sort_candidates L (\<lambda>a b. edgeScore a > edgeScore b) ?r)"
    unfolding std_sort_ok_def by blast
  from sorted_descending_position[OF sp lt few] show ?thesis
    by (simp add: read_through_best_def Let_def)
qed

subsection \<open>Running the pipeline on the small instance\<close>

lemma toy_fields:
  "rows toy_cv m = fst m" "cols toy_cv m = fst (snd m)" "channels toy_cv m = 3"
  "at_float toy_cv m y x = 1" "at_Vec3b toy_cv m y x = (0, 0, 0)" "Mat_32FC1 toy_cv h w f = (h, w, [])"
  "setTo_rows toy_cv m a b = m" "setTo_cols toy_cv m a b = m"
  "resize toy_cv = toy_resize" "cvtColor toy_cv = toy_cvtColor" "Sobel toy_cv m dx dy = m"
  "magnitude toy_cv gx gy = gx" "pyrDown toy_cv m sz = toy_blank m"
  "pyrUp toy_cv m sz = (snd sz, fst sz, snd (snd m))"
  "mixChannels toy_cv m c = m" "Canny toy_cv m lo hi ap = m" "dilate toy_cv m k = m"
  "erode toy_cv m k = m" "compare_ge toy_cv m v = m" "medianBlur toy_cv m ks = toy_blank m"
  "subtract toy_cv m m' = m" "threshold toy_cv m th mv fl = m" "morphologyEx toy_cv m mop k it = m"
  "split toy_cv m = [m, m, m]" "GaussianBlur toy_cv m sz sg = m" "normalize toy_cv m al be nt = m"
  "convertTo toy_cv m rt = m" "bitwise_or toy_cv m m' = m" "CLAHE_apply toy_cv cl tg m = m"
  "findContours toy_cv m = snd (snd m)"
  "contourArea toy_cv = toy_contourArea" "arcLength toy_cv ps cl' = 0"
  "approxPolyDP toy_cv ps eps cl' = ps" "isContourConvex toy_cv = toy_isContourConvex"
  "sort_contours toy_cv = toy_sort" "sort_candidates toy_cv = toy_sort"
  by (simp_all add: toy_cv_def)

lemma mset_sort_insert: "mset (sort_insert cmp a xs) = add_mset a (mset xs)"
  by (induction xs) simp_all

lemma mset_toy_sort: "mset (toy_sort cmp xs) = mset xs"
  by (induction xs) (simp_all add: mset_sort_insert)

lemma set_sort_insert: "set (sort_insert cmp a xs) = insert a (set xs)"
  by (induction xs) auto

lemma sorted_sort_insert:
  fixes key :: "'a \<Rightarrow> real"
  assumes "sorted_wrt (\<lambda>a b. \<not> key b > key a) xs"
  shows "sorted_wrt (\<lambda>a b. \<not> key b > key a) (sort_insert (\<lambda>a b. key a > key b) a xs)"
  using assms by (induction xs) (auto simp: set_sort_insert)

lemma sorted_toy_sort:
  fixes key :: "'a \<Rightarrow> real"
  shows "sorted_wrt (\<lambda>a b. \<not> key b > key a) (toy_sort (\<lambda>a b. key a > key b) xs)"
  by (induction xs) (simp_all add: sorted_sort_insert)

lemma toy_std_sort_ok: "std_sort_ok toy_cv"
  unfolding std_sort_ok_def sorted_permutation_def toy_fields
  by (simp add: mset_toy_sort sorted_toy_sort)

lemma toy_opencv_ok: "opencv_ok toy_cv"
  unfolding opencv_ok_def same_size_def
  by (simp add: toy_fields toy_blank_def toy_cvtColor_def)

lemma toy_edgeScore:
  assumes "spec_in_map toy_cv gradMag (q ! 0)" "\<bar>px (q ! 0)\<bar> < 2 ^ 24" "\<bar>py (q ! 0)\<bar> < 2 ^ 24"
  shows "float_edgeScore toy_cv q gradMag = 1"
proof -
  obtain rest where r: "float_quad_samples q = (q ! 0) # rest"
    using float_quad_samples_hd[OF assms(2,3)] by blast
  let ?valid = "filter (spec_in_map toy_cv gradMag) (float_quad_samples q)"
  have ne: "?valid \<noteq> []" using assms(1) r by simp
  have "sum_list (map (\<lambda>p. at_float toy_cv gradMag (py p) (px p)) ?valid) = real (length ?valid)"
    by (simp add: toy_fields sum_list_triv)
  with ne show ?thesis by (simp add: float_edgeScore_def Let_def)
qed

lemma good_square_A: "isGoodQuad toy_cv square_A 40000 200 200 = Some True"
proof -
  have "length square_A = 4" by (simp add: square_A_def)
  then show ?thesis
    by (simp only: isGoodQuad_eq')
       (simp add: square_A_def toy_fields toy_contourArea_def toy_isContourConvex_def
          spec_within_border_def corner_ok_iff)
qed

lemma good_square_B: "isGoodQuad toy_cv square_B 40000 200 200 = Some True"
proof -
  have "length square_B = 4" by (simp add: square_B_def)
  then show ?thesis
    by (simp only: isGoodQuad_eq')
       (simp add: square_B_def toy_fields toy_contourArea_def toy_isContourConvex_def
          spec_within_border_def corner_ok_iff)
qed

lemma toy_clean_borders:
  assumes "5 \<le> r" "5 \<le> c"
  shows "clean_borders toy_cv (r, c, s) = Some (r, c, s)"
  using assms by (simp add: clean_borders_def rowRange_setTo_def colRange_setTo_def toy_fields)

lemma toy_step:
  assumes "i < length cs" "length (cs ! i) = 4" "isGoodQuad toy_cv (cs ! i) imgArea c r = Some True"
    and "spec_in_map toy_cv gradMag (cs ! i ! 0)"
    and "\<bar>px (cs ! i ! 0)\<bar> < 2 ^ 24" "\<bar>py (cs ! i ! 0)\<bar> < 2 ^ 24"
  shows "collectQuads_step toy_cv (r, c, s) imgArea gradMag cs eps i cands =
      Some (cands @ [\<lparr>quad = cs ! i, area = toy_contourArea (cs ! i), edgeScore = 1\<rparr>])"
  using assms(1-3)
  by (simp add: collectQuads_step_def vec_at_def toy_fields computeEdgeScore_eq toy_edgeScore[OF assms(4-6)])

lemma toy_collectQuads_blank:
  assumes "5 \<le> r" "5 \<le> c"
  shows "collectQuads toy_cv (r, c, []) imgArea gradMag candidates = Some candidates"
  by (simp add: collectQuads_def toy_clean_borders[OF assms] Let_def toy_fields)

lemma toy_collectQuads:
  assumes "length q = 4" "isGoodQuad toy_cv q imgArea c r = Some True"
    and "spec_in_map toy_cv gradMag (q ! 0)" "\<bar>px (q ! 0)\<bar> < 2 ^ 24" "\<bar>py (q ! 0)\<bar> < 2 ^ 24"
    and "5 \<le> r" "5 \<le> c"
  shows "collectQuads toy_cv (r, c, [q]) imgArea gradMag candidates =
     Some (candidates @ [\<lparr>quad = q, area = toy_contourArea q, edgeScore = 1\<rparr>,
                         \<lparr>quad = q, area = toy_contourArea q, edgeScore = 1\<rparr>])"
proof -
  have step: "collectQuads_step toy_cv (r, c, [q]) imgArea gradMag [q] eps 0 cs =
      Some (cs @ [\<lparr>quad = q, area = toy_contourArea q, edgeScore = 1\<rparr>])" for eps cs
    using toy_step[of 0 "[q]" imgArea c r gradMag "[q]" eps cs] assms(1-5) by simp
  have one: "[0 ..< nat (min (int (length [q])) 20)] = [0]" by simp
  show ?thesis
    by (simp only: collectQuads_def toy_clean_borders[OF assms(6,7)] Option.bind.simps Let_def toy_fields
          snd_conv toy_sort.simps sort_insert.simps one for_each.simps step append_assoc append_Cons append_Nil)
qed

lemma toy_collectQuads_A:
  "collectQuads toy_cv (200, 200, [square_A]) 40000 img_two cs = Some (cs @ [cand_A, cand_A])"
  using toy_collectQuads[of square_A 40000 200 200 img_two cs] good_square_A
  by (simp add: square_A_def spec_in_map_def toy_fields img_two_def toy_contourArea_def cand_A_def)

lemma toy_collectQuads_two:
  "collectQuads toy_cv img_two 40000 img_two cs = Some (cs @ [cand_B, cand_A, cand_B, cand_A])"
proof -
  have srt: "toy_sort (\<lambda>a b. toy_contourArea a > toy_contourArea b) [square_A, square_B] = [square_B, square_A]"
    by (simp add: toy_contourArea_def square_A_def square_B_def)
  have s0: "collectQuads_step toy_cv (200, 200, [square_A, square_B]) 40000 img_two [square_B, square_A] eps 0 st =
      Some (st @ [cand_B])" for eps st
    using toy_step[of 0 "[square_B, square_A]" 40000 200 200 img_two "[square_A, square_B]" eps st] good_square_B
    by (simp add: square_B_def spec_in_map_def toy_fields img_two_def toy_contourArea_def cand_B_def)
  have s1: "collectQuads_step toy_cv (200, 200, [square_A, square_B]) 40000 img_two [square_B, square_A] eps (Suc 0) st =
      Some (st @ [cand_A])" for eps st
    using toy_step[of 1 "[square_B, square_A]" 40000 200 200 img_two "[square_A, square_B]" eps st] good_square_A
    by (simp add: square_A_def spec_in_map_def toy_fields img_two_def toy_contourArea_def cand_A_def)
  have two: "[0 ..< nat (min (int (length [square_B, square_A])) 20)] = [0, Suc 0]" by (simp add: upt_rec)
  have i2: "img_two = (200, 200, [square_A, square_B])" by (simp add: img_two_def)
  have cb: "clean_borders toy_cv (200, 200, [square_A, square_B]) = Some (200, 200, [square_A, square_B])"
    by (rule toy_clean_borders) simp_all
  show ?thesis
    apply (subst i2)
    apply (simp only: collectQuads_def cb Option.bind.simps Let_def toy_fields snd_conv srt two
          for_each.simps s0 s1 append_assoc append_Cons append_Nil)
    done
qed

lemma toy_findSquaresMultiChannel:
  assumes "5 \<le> fst m" "5 \<le> fst (snd m)"
  shows "findSquaresMultiChannel toy_cv m imgArea gradMag cs = Some cs"
proof -
  have bl: "collectQuads toy_cv (fst m, fst (snd m), []) imgArea gradMag st = Some st" for st
    by (rule toy_collectQuads_blank[OF assms])
  have inner: "for_each (\<lambda>l. collectQuads toy_cv (fst m, fst (snd m), []) imgArea gradMag) xs st = Some st" for xs st
    by (rule for_each_skip) (rule bl)
  show ?thesis
    unfolding findSquaresMultiChannel_def Let_def toy_fields
    by (rule for_each_skip) (simp add: toy_blank_def bl inner)
qed

lemma toy_findByMorphGradient:
  assumes "5 \<le> fst m" "5 \<le> fst (snd m)"
  shows "findByMorphGradient toy_cv m imgArea gradMag cs = Some cs"
  by (simp add: findByMorphGradient_def Let_def toy_fields toy_cvtColor_def toy_blank_def
        toy_collectQuads_blank[OF assms])

lemma toy_findByColorDistance:
  assumes "5 \<le> fst m" "5 \<le> fst (snd m)"
  shows "findByColorDistance toy_cv m imgArea gradMag cs = Some cs"
proof -
  from assms have "0 < rows toy_cv m" "0 < cols toy_cv m" by (simp_all add: toy_fields)
  from findByColorDistance_form[OF this, of imgArea gradMag cs] show ?thesis
    by (auto simp: toy_fields toy_collectQuads_blank[OF assms])
qed

lemma toy_candidates_blank:
  "detectDocument_candidates toy_cv img_blank imgArea gradMag = Some []"
proof -
  have d: "5 \<le> fst img_blank" "5 \<le> fst (snd img_blank)" by (simp_all add: img_blank_def)
  have bl: "collectQuads toy_cv img_blank imgArea gradMag st = Some st" for st
    unfolding img_blank_def by (rule toy_collectQuads_blank) simp_all
  have cvt: "toy_cvtColor img_blank code = img_blank" for code
    by (simp add: toy_cvtColor_def img_blank_def)
  show ?thesis
    by (simp add: detectDocument_candidates_def toy_findSquaresMultiChannel[OF d] toy_findByMorphGradient[OF d]
        findBySaturation_def findByLabEdges_def findByCLAHECanny_def toy_findByColorDistance[OF d]
        toy_fields vec_at_def cvt bl Let_def)
qed

lemma toy_candidates_two:
  "detectDocument_candidates toy_cv img_two 40000 img_two = Some pool_two"
proof -
  have d: "5 \<le> fst img_two" "5 \<le> fst (snd img_two)" by (simp_all add: img_two_def)
  have hsv: "toy_cvtColor img_two COLOR_BGR2HSV = (200, 200, [square_A])"
    and lab: "toy_cvtColor img_two COLOR_BGR2Lab = (200, 200, [square_A])"
    and gray: "toy_cvtColor img_two COLOR_BGR2GRAY = img_two"
    by (simp_all add: toy_cvtColor_def img_two_def)
  have s3: "findBySaturation toy_cv img_two 40000 img_two cs = Some (cs @ replicate 4 cand_A)" for cs
    by (simp add: findBySaturation_def toy_fields hsv vec_at_def toy_collectQuads_A Let_def numeral_eq_Suc)
  have s5: "findByLabEdges toy_cv img_two 40000 img_two cs = Some (cs @ replicate 6 cand_A)" for cs
    by (simp add: findByLabEdges_def toy_fields lab vec_at_def toy_collectQuads_A Let_def numeral_eq_Suc)
  have s6: "findByCLAHECanny toy_cv img_two 40000 img_two cs =
      Some (cs @ concat (replicate 3 [cand_B, cand_A, cand_B, cand_A]))" for cs
    by (simp add: findByCLAHECanny_def toy_fields gray toy_collectQuads_two Let_def numeral_eq_Suc)
  show ?thesis
    by (simp add: detectDocument_candidates_def toy_findSquaresMultiChannel[OF d] toy_findByMorphGradient[OF d]
        s3 toy_findByColorDistance[OF d] s5 s6 pool_two_def numeral_eq_Suc)
qed

lemma pool_two_list:
  "pool_two = [cand_A, cand_A, cand_A, cand_A, cand_A, cand_A, cand_A, cand_A, cand_A, cand_A,
               cand_B, cand_A, cand_B, cand_A, cand_B, cand_A, cand_B, cand_A, cand_B, cand_A, cand_B, cand_A]"
  by (simp add: pool_two_def numeral_eq_Suc)

lemma rescored_two:
  "map (spec_combined 40000) pool_two =
     [cand_A\<lparr>edgeScore := 9 / 100\<rparr>, cand_A\<lparr>edgeScore := 9 / 100\<rparr>, cand_A\<lparr>edgeScore := 9 / 100\<rparr>,
      cand_A\<lparr>edgeScore := 9 / 100\<rparr>, cand_A\<lparr>edgeScore := 9 / 100\<rparr>, cand_A\<lparr>edgeScore := 9 / 100\<rparr>,
      cand_A\<lparr>edgeScore := 9 / 100\<rparr>, cand_A\<lparr>edgeScore := 9 / 100\<rparr>, cand_A\<lparr>edgeScore := 9 / 100\<rparr>,
      cand_A\<lparr>edgeScore := 9 / 100\<rparr>,
      cand_B\<lparr>edgeScore := 81 / 400\<rparr>, cand_A\<lparr>edgeScore := 9 / 100\<rparr>,
      cand_B\<lparr>edgeScore := 81 / 400\<rparr>, cand_A\<lparr>edgeScore := 9 / 100\<rparr>,
      cand_B\<lparr>edgeScore := 81 / 400\<rparr>, cand_A\<lparr>edgeScore := 9 / 100\<rparr>,
      cand_B\<lparr>edgeScore := 81 / 400\<rparr>, cand_A\<lparr>edgeScore := 9 / 100\<rparr>,
      cand_B\<lparr>edgeScore := 81 / 400\<rparr>, cand_A\<lparr>edgeScore := 9 / 100\<rparr>,
      cand_B\<lparr>edgeScore := 81 / 400\<rparr>, cand_A\<lparr>edgeScore := 9 / 100\<rparr>]"
  by (simp add: pool_two_list spec_combined_def cand_A_def cand_B_def)

lemma best_two: "best_position (map (spec_combined 40000) pool_two) = 10"
  unfolding rescored_two
  by (simp add: best_position_def max_element_def cand_A_def cand_B_def)

lemma best_pair: "best_position (map (spec_combined 40000) [cand_A, cand_B]) = 1"
  by (simp add: best_position_def max_element_def spec_combined_def cand_A_def cand_B_def)

text \<open>
  Whatever order the sort gives to equivalent candidates, the slot of the first maximum
  holds a copy of \<open>A\<close> afterwards: fewer candidates score 0.2025 than come before it.
\<close>

lemma read_two:
  assumes "std_sort_ok L"
  shows "quad (read_through_best L 40000 pool_two) = square_A"
proof -
  have ne: "pool_two \<noteq> []" by (simp add: pool_two_list)
  have few: "length (filter (\<lambda>c. 81 / 400 \<le> edgeScore c) (map (spec_combined 40000) pool_two))
      \<le> best_position (map (spec_combined 40000) pool_two)"
    unfolding best_two unfolding rescored_two by (simp add: cand_A_def cand_B_def)
  from read_through_best_below[OF assms ne _ few]
  have lt: "edgeScore (read_through_best L 40000 pool_two) < 81 / 400" by simp
  from read_through_best_in[OF ne assms, of 40000]
  have "read_through_best L 40000 pool_two \<in> set (map (spec_combined 40000) pool_two)" by simp
  then have "read_through_best L 40000 pool_two = cand_A\<lparr>edgeScore := 9 / 100\<rparr> \<or>
      read_through_best L 40000 pool_two = cand_B\<lparr>edgeScore := 81 / 400\<rparr>"
    unfolding rescored_two by auto
  with lt show ?thesis by (auto simp: cand_A_def)
qed

lemma read_pair:
  assumes "std_sort_ok L"
  shows "quad (read_through_best L 40000 [cand_A, cand_B]) = square_A"
proof -
  have ne: "[cand_A, cand_B] \<noteq> []" by simp
  have few: "length (filter (\<lambda>c. 81 / 400 \<le> edgeScore c) (map (spec_combined 40000) [cand_A, cand_B]))
      \<le> best_position (map (spec_combined 40000) [cand_A, cand_B])"
    unfolding best_pair by (simp add: spec_combined_def cand_A_def cand_B_def)
  from read_through_best_below[OF assms ne _ few]
  have lt: "edgeScore (read_through_best L 40000 [cand_A, cand_B]) < 81 / 400" by simp
  from read_through_best_in[OF ne assms, of 40000]
  have "read_through_best L 40000 [cand_A, cand_B] = spec_combined 40000 cand_A \<or>
      read_through_best L 40000 [cand_A, cand_B] = spec_combined 40000 cand_B"
    by auto
  with lt show ?thesis by (auto simp: spec_combined_def cand_A_def cand_B_def)
qed

lemma unscale_square_A:
  "orderPoints (map (unscale 1) square_A) = Some [Point 20 20, Point 80 20, Point 80 80, Point 20 80]"
  by (simp add: square_A_def unscale_def f64_numeral c_round_def orderPoints_def min_element_def
        max_element_def vec_at_def Let_def)

lemma toy_select_two:
  assumes "std_sort_ok L"
  shows "detectDocument_select L 40000 1 pool_two = Some [Point 20 20, Point 80 20, Point 80 80, Point 20 80]"
proof -
  have ne: "pool_two \<noteq> []" by (simp add: pool_two_list)
  have "detectDocument_select L 40000 1 pool_two =
      orderPoints (map (unscale 1) (quad (read_through_best L 40000 pool_two)))"
    by (rule detectDocument_select_eq[OF ne _ _ assms]) simp_all
  then show ?thesis by (simp only: read_two[OF assms] unscale_square_A)
qed

lemma toy_select_pair:
  assumes "std_sort_ok L"
  shows "detectDocument_select L 40000 1 [cand_A, cand_B] = Some [Point 20 20, Point 80 20, Point 80 80, Point 20 80]"
proof -
  have ne: "[cand_A, cand_B] \<noteq> []" by simp
  have "detectDocument_select L 40000 1 [cand_A, cand_B] =
      orderPoints (map (unscale 1) (quad (read_through_best L 40000 [cand_A, cand_B])))"
    by (rule detectDocument_select_eq[OF ne _ _ assms]) simp_all
  then show ?thesis by (simp only: read_pair[OF assms] unscale_square_A)
qed

lemma toy_resize_small:
  assumes "fst m \<le> 600" "fst (snd m) \<le> 600"
  shows "detectDocument_resize toy_cv m = Some (m, 1)"
proof -
  have "\<not> max (rows toy_cv m) (cols toy_cv m) > TARGET"
    using assms by (simp add: toy_fields TARGET_def)
  then show ?thesis by (simp only: detectDocument_resize_def if_False)
qed

lemma toy_detect_two:
  "detectDocument toy_cv img_two = Some [Point 20 20, Point 80 20, Point 80 80, Point 20 80]"
proof -
  have r: "detectDocument_resize toy_cv img_two = Some (img_two, 1)"
    by (rule toy_resize_small) (simp_all add: img_two_def)
  have a: "real_of_int (rows toy_cv img_two * cols toy_cv img_two) = 40000"
    by (simp add: toy_fields img_two_def)
  have g: "detectDocument_gradMag toy_cv img_two = img_two"
    by (simp add: detectDocument_gradMag_def toy_fields toy_cvtColor_def)
  show ?thesis
    by (simp only: detectDocument_def r Option.bind.simps prod.case Let_def a g toy_candidates_two
          toy_select_two[OF toy_std_sort_ok])
qed






lemma toy_detect_tiny: "detectDocument toy_cv img_tiny = None"
proof -
  have r: "detectDocument_resize toy_cv img_tiny = Some (img_tiny, 1)"
    by (rule toy_resize_small) (simp_all add: img_tiny_def)
  have "rows toy_cv img_tiny < 5 \<or> cols toy_cv img_tiny < 5"
    by (simp add: toy_fields img_tiny_def)
  from detectDocument_candidates_too_small[OF toy_opencv_ok this]
  show ?thesis
    by (simp only: detectDocument_def r Option.bind.simps prod.case Let_def)
qed

lemma kite_corner_0: "\<not> spec_corner_ok kite 0"
  by (simp add: kite_def corner_ok_iff)

lemma good_diamond_any:
  assumes "contourArea L diamond = 1800" "isContourConvex L diamond"
  shows "isGoodQuad L diamond 10000 100 100 = Some True"
proof -
  have "length diamond = 4" by (simp add: diamond_def)
  then show ?thesis
    using assms
    by (simp only: isGoodQuad_eq')
       (simp add: diamond_def spec_within_border_def corner_ok_iff)
qed

lemma good_kite_any:
  assumes "contourArea L kite = 6240" "isContourConvex L kite"
  shows "isGoodQuad L kite 40000 200 200 = Some True"
proof -
  have "length kite = 4" by (simp add: kite_def)
  then show ?thesis
    using assms
    by (simp only: isGoodQuad_eq')
       (simp add: kite_def spec_within_border_def corner_ok_iff)
qed

lemma toy_kite: "contourArea toy_cv kite = 6240" "isContourConvex toy_cv kite"
  by (simp_all add: toy_fields toy_contourArea_def toy_isContourConvex_def kite_def)

lemma toy_diamond: "contourArea toy_cv diamond = 1800" "isContourConvex toy_cv diamond"
  by (simp_all add: toy_fields toy_contourArea_def toy_isContourConvex_def diamond_def)

lemma orderPoints_diamond:
  "orderPoints diamond = Some [Point 50 20, Point 50 20, Point 80 50, Point 50 80]"
  by (simp add: diamond_def orderPoints_def min_element_def max_element_def vec_at_def Let_def)

subsection \<open>The interpolation in single precision on a concrete rectangle\<close>

lemma float_interpolate_const:
  assumes "\<bar>a\<bar> < 2 ^ 24"
  shows "float_interpolate a a n s = a"
  by (simp add: float_interpolate_def f32_0 f32_of_int[OF assms] c_trunc_of_int)

lemma float_interpolate_eval:
  assumes "\<bar>a\<bar> < 2 ^ 24" "\<bar>b - a\<bar> < 2 ^ 24" "int s < 2 ^ 24" "\<bar>n\<bar> < 2 ^ 24"
    and "in_binade 24 ka (real s / real_of_int n)"
    and "in_binade 24 kb (round_to ka (real s / real_of_int n) * real_of_int (b - a))"
    and "in_binade 24 kc (real_of_int a + round_to kb (round_to ka (real s / real_of_int n) * real_of_int (b - a)))"
  shows "float_interpolate a b n s =
     c_trunc (round_to kc (real_of_int a + round_to kb (round_to ka (real s / real_of_int n) * real_of_int (b - a))))"
proof -
  have s: "f32 (real s) = real s"
    using f32_of_int[of "int s"] assms(3) by simp
  show ?thesis
    unfolding float_interpolate_def
    by (simp only: s f32_of_int[OF assms(1)] f32_of_int[OF assms(2)] f32_of_int[OF assms(4)]
          f32_binade[OF assms(5)] f32_binade[OF assms(6)] f32_binade[OF assms(7)])
qed

lemma upt_10: "[0 ..< 10] = [0, 1, 2, 3, 4, 5, 6, 7, 8, 9]"
  by (simp add: upt_rec)

lemma upt_19: "[0 ..< 19] = [0, 1, 2, 3, 4, 5, 6, 7, 8, 9, 10, 11, 12, 13, 14, 15, 16, 17, 18]"
  by (simp add: upt_rec)

lemma interpolate_10_29:
  "float_interpolate 10 29 19 0 = 10"
  "float_interpolate 10 29 19 (Suc 0) = 11"
  "float_interpolate 10 29 19 2 = 12"
  "float_interpolate 10 29 19 3 = 13"
  "float_interpolate 10 29 19 4 = 14"
  "float_interpolate 10 29 19 5 = 15"
  "float_interpolate 10 29 19 6 = 16"
  "float_interpolate 10 29 19 7 = 17"
  "float_interpolate 10 29 19 8 = 18"
  "float_interpolate 10 29 19 9 = 19"
  "float_interpolate 10 29 19 10 = 20"
  "float_interpolate 10 29 19 11 = 21"
  "float_interpolate 10 29 19 12 = 22"
  "float_interpolate 10 29 19 13 = 23"
  "float_interpolate 10 29 19 14 = 24"
  "float_interpolate 10 29 19 15 = 25"
  "float_interpolate 10 29 19 16 = 26"
  "float_interpolate 10 29 19 17 = 27"
  "float_interpolate 10 29 19 18 = 28"
proof -
  note ev = in_binade_def round_to_def round_even_def c_trunc_def
  show "float_interpolate 10 29 19 0 = 10" by (rule float_interpolate_0) simp
  show "float_interpolate 10 29 19 (Suc 0) = 11"
    by (subst float_interpolate_eval[where ka = 28 and kb = 23 and kc = 20]) (simp_all add: ev)
  show "float_interpolate 10 29 19 2 = 12"
    by (subst float_interpolate_eval[where ka = 27 and kb = 22 and kc = 20]) (simp_all add: ev)
  show "float_interpolate 10 29 19 3 = 13"
    by (subst float_interpolate_eval[where ka = 26 and kb = 22 and kc = 20]) (simp_all add: ev)
  show "float_interpolate 10 29 19 4 = 14"
    by (subst float_interpolate_eval[where ka = 26 and kb = 21 and kc = 20]) (simp_all add: ev)
  show "float_interpolate 10 29 19 5 = 15"
    by (subst float_interpolate_eval[where ka = 25 and kb = 21 and kc = 20]) (simp_all add: ev)
  show "float_interpolate 10 29 19 6 = 16"
    by (subst float_interpolate_eval[where ka = 25 and kb = 21 and kc = 19]) (simp_all add: ev)
  show "float_interpolate 10 29 19 7 = 17"
    by (subst float_interpolate_eval[where ka = 25 and kb = 21 and kc = 19]) (simp_all add: ev)
  show "float_interpolate 10 29 19 8 = 18"
    by (subst float_interpolate_eval[where ka = 25 and kb = 20 and kc = 19]) (simp_all add: ev)
  show "float_interpolate 10 29 19 9 = 19"
    by (subst float_interpolate_eval[where ka = 25 and kb = 20 and kc = 19]) (simp_all add: ev)
  show "float_interpolate 10 29 19 10 = 20"
    by (subst float_interpolate_eval[where ka = 24 and kb = 20 and kc = 19]) (simp_all add: ev)
  show "float_interpolate 10 29 19 11 = 21"
    by (subst float_interpolate_eval[where ka = 24 and kb = 20 and kc = 19]) (simp_all add: ev)
  show "float_interpolate 10 29 19 12 = 22"
    by (subst float_interpolate_eval[where ka = 24 and kb = 20 and kc = 19]) (simp_all add: ev)
  show "float_interpolate 10 29 19 13 = 23"
    by (subst float_interpolate_eval[where ka = 24 and kb = 20 and kc = 19]) (simp_all add: ev)
  show "float_interpolate 10 29 19 14 = 24"
    by (subst float_interpolate_eval[where ka = 24 and kb = 20 and kc = 19]) (simp_all add: ev)
  show "float_interpolate 10 29 19 15 = 25"
    by (subst float_interpolate_eval[where ka = 24 and kb = 20 and kc = 19]) (simp_all add: ev)
  show "float_interpolate 10 29 19 16 = 26"
    by (subst float_interpolate_eval[where ka = 24 and kb = 19 and kc = 19]) (simp_all add: ev)
  show "float_interpolate 10 29 19 17 = 27"
    by (subst float_interpolate_eval[where ka = 24 and kb = 19 and kc = 19]) (simp_all add: ev)
  show "float_interpolate 10 29 19 18 = 28"
    by (subst float_interpolate_eval[where ka = 24 and kb = 19 and kc = 19]) (simp_all add: ev)
qed

lemma interpolate_29_10:
  "float_interpolate 29 10 19 0 = 29"
  "float_interpolate 29 10 19 (Suc 0) = 28"
  "float_interpolate 29 10 19 2 = 27"
  "float_interpolate 29 10 19 3 = 26"
  "float_interpolate 29 10 19 4 = 25"
  "float_interpolate 29 10 19 5 = 24"
  "float_interpolate 29 10 19 6 = 23"
  "float_interpolate 29 10 19 7 = 22"
  "float_interpolate 29 10 19 8 = 21"
  "float_interpolate 29 10 19 9 = 20"
  "float_interpolate 29 10 19 10 = 19"
  "float_interpolate 29 10 19 11 = 18"
  "float_interpolate 29 10 19 12 = 17"
  "float_interpolate 29 10 19 13 = 16"
  "float_interpolate 29 10 19 14 = 15"
  "float_interpolate 29 10 19 15 = 13"
  "float_interpolate 29 10 19 16 = 13"
  "float_interpolate 29 10 19 17 = 12"
  "float_interpolate 29 10 19 18 = 11"
proof -
  note ev = in_binade_def round_to_def round_even_def c_trunc_def
  show "float_interpolate 29 10 19 0 = 29" by (rule float_interpolate_0) simp
  show "float_interpolate 29 10 19 (Suc 0) = 28"
    by (subst float_interpolate_eval[where ka = 28 and kb = 23 and kc = 19]) (simp_all add: ev)
  show "float_interpolate 29 10 19 2 = 27"
    by (subst float_interpolate_eval[where ka = 27 and kb = 22 and kc = 19]) (simp_all add: ev)
  show "float_interpolate 29 10 19 3 = 26"
    by (subst float_interpolate_eval[where ka = 26 and kb = 22 and kc = 19]) (simp_all add: ev)
  show "float_interpolate 29 10 19 4 = 25"
    by (subst float_interpolate_eval[where ka = 26 and kb = 21 and kc = 19]) (simp_all add: ev)
  show "float_interpolate 29 10 19 5 = 24"
    by (subst float_interpolate_eval[where ka = 25 and kb = 21 and kc = 19]) (simp_all add: ev)
  show "float_interpolate 29 10 19 6 = 23"
    by (subst float_interpolate_eval[where ka = 25 and kb = 21 and kc = 19]) (simp_all add: ev)
  show "float_interpolate 29 10 19 7 = 22"
    by (subst float_interpolate_eval[where ka = 25 and kb = 21 and kc = 19]) (simp_all add: ev)
  show "float_interpolate 29 10 19 8 = 21"
    by (subst float_interpolate_eval[where ka = 25 and kb = 20 and kc = 19]) (simp_all add: ev)
  show "float_interpolate 29 10 19 9 = 20"
    by (subst float_interpolate_eval[where ka = 25 and kb = 20 and kc = 19]) (simp_all add: ev)
  show "float_interpolate 29 10 19 10 = 19"
    by (subst float_interpolate_eval[where ka = 24 and kb = 20 and kc = 19]) (simp_all add: ev)
  show "float_interpolate 29 10 19 11 = 18"
    by (subst float_interpolate_eval[where ka = 24 and kb = 20 and kc = 19]) (simp_all add: ev)
  show "float_interpolate 29 10 19 12 = 17"
    by (subst float_interpolate_eval[where ka = 24 and kb = 20 and kc = 19]) (simp_all add: ev)
  show "float_interpolate 29 10 19 13 = 16"
    by (subst float_interpolate_eval[where ka = 24 and kb = 20 and kc = 19]) (simp_all add: ev)
  show "float_interpolate 29 10 19 14 = 15"
    by (subst float_interpolate_eval[where ka = 24 and kb = 20 and kc = 20]) (simp_all add: ev)
  show "float_interpolate 29 10 19 15 = 13"
    by (subst float_interpolate_eval[where ka = 24 and kb = 20 and kc = 20]) (simp_all add: ev)
  show "float_interpolate 29 10 19 16 = 13"
    by (subst float_interpolate_eval[where ka = 24 and kb = 19 and kc = 20]) (simp_all add: ev)
  show "float_interpolate 29 10 19 17 = 12"
    by (subst float_interpolate_eval[where ka = 24 and kb = 19 and kc = 20]) (simp_all add: ev)
  show "float_interpolate 29 10 19 18 = 11"
    by (subst float_interpolate_eval[where ka = 24 and kb = 19 and kc = 20]) (simp_all add: ev)
qed

lemma interpolate_10_20:
  "float_interpolate 10 20 10 0 = 10"
  "float_interpolate 10 20 10 (Suc 0) = 11"
  "float_interpolate 10 20 10 2 = 12"
  "float_interpolate 10 20 10 3 = 13"
  "float_interpolate 10 20 10 4 = 14"
  "float_interpolate 10 20 10 5 = 15"
  "float_interpolate 10 20 10 6 = 16"
  "float_interpolate 10 20 10 7 = 17"
  "float_interpolate 10 20 10 8 = 18"
  "float_interpolate 10 20 10 9 = 19"
proof -
  note ev = in_binade_def round_to_def round_even_def c_trunc_def
  show "float_interpolate 10 20 10 0 = 10" by (rule float_interpolate_0) simp
  show "float_interpolate 10 20 10 (Suc 0) = 11"
    by (subst float_interpolate_eval[where ka = 27 and kb = 23 and kc = 20]) (simp_all add: ev)
  show "float_interpolate 10 20 10 2 = 12"
    by (subst float_interpolate_eval[where ka = 26 and kb = 22 and kc = 20]) (simp_all add: ev)
  show "float_interpolate 10 20 10 3 = 13"
    by (subst float_interpolate_eval[where ka = 25 and kb = 22 and kc = 20]) (simp_all add: ev)
  show "float_interpolate 10 20 10 4 = 14"
    by (subst float_interpolate_eval[where ka = 25 and kb = 21 and kc = 20]) (simp_all add: ev)
  show "float_interpolate 10 20 10 5 = 15"
    by (subst float_interpolate_eval[where ka = 24 and kb = 21 and kc = 20]) (simp_all add: ev)
  show "float_interpolate 10 20 10 6 = 16"
    by (subst float_interpolate_eval[where ka = 24 and kb = 21 and kc = 19]) (simp_all add: ev)
  show "float_interpolate 10 20 10 7 = 17"
    by (subst float_interpolate_eval[where ka = 24 and kb = 21 and kc = 19]) (simp_all add: ev)
  show "float_interpolate 10 20 10 8 = 18"
    by (subst float_interpolate_eval[where ka = 24 and kb = 20 and kc = 19]) (simp_all add: ev)
  show "float_interpolate 10 20 10 9 = 19"
    by (subst float_interpolate_eval[where ka = 24 and kb = 20 and kc = 19]) (simp_all add: ev)
qed

lemma interpolate_20_10:
  "float_interpolate 20 10 10 0 = 20"
  "float_interpolate 20 10 10 (Suc 0) = 19"
  "float_interpolate 20 10 10 2 = 18"
  "float_interpolate 20 10 10 3 = 17"
  "float_interpolate 20 10 10 4 = 16"
  "float_interpolate 20 10 10 5 = 15"
  "float_interpolate 20 10 10 6 = 14"
  "float_interpolate 20 10 10 7 = 13"
  "float_interpolate 20 10 10 8 = 12"
  "float_interpolate 20 10 10 9 = 11"
proof -
  note ev = in_binade_def round_to_def round_even_def c_trunc_def
  show "float_interpolate 20 10 10 0 = 20" by (rule float_interpolate_0) simp
  show "float_interpolate 20 10 10 (Suc 0) = 19"
    by (subst float_interpolate_eval[where ka = 27 and kb = 23 and kc = 19]) (simp_all add: ev)
  show "float_interpolate 20 10 10 2 = 18"
    by (subst float_interpolate_eval[where ka = 26 and kb = 22 and kc = 19]) (simp_all add: ev)
  show "float_interpolate 20 10 10 3 = 17"
    by (subst float_interpolate_eval[where ka = 25 and kb = 22 and kc = 19]) (simp_all add: ev)
  show "float_interpolate 20 10 10 4 = 16"
    by (subst float_interpolate_eval[where ka = 25 and kb = 21 and kc = 19]) (simp_all add: ev)
  show "float_interpolate 20 10 10 5 = 15"
    by (subst float_interpolate_eval[where ka = 24 and kb = 21 and kc = 20]) (simp_all add: ev)
  show "float_interpolate 20 10 10 6 = 14"
    by (subst float_interpolate_eval[where ka = 24 and kb = 21 and kc = 20]) (simp_all add: ev)
  show "float_interpolate 20 10 10 7 = 13"
    by (subst float_interpolate_eval[where ka = 24 and kb = 21 and kc = 20]) (simp_all add: ev)
  show "float_interpolate 20 10 10 8 = 12"
    by (subst float_interpolate_eval[where ka = 24 and kb = 20 and kc = 20]) (simp_all add: ev)
  show "float_interpolate 20 10 10 9 = 11"
    by (subst float_interpolate_eval[where ka = 24 and kb = 20 and kc = 20]) (simp_all add: ev)
qed


lemma sqrt_361: "sqrt 361 = 19"
  by (rule real_sqrt_unique) simp_all

lemma sqrt_100: "sqrt 100 = 10"
  by (rule real_sqrt_unique) simp_all

lemma rect_R_lengths:
  "cv_norm (Point_minus (Point 29 10) (Point 10 10)) = 19"
  "cv_norm (Point_minus (Point 29 20) (Point 29 10)) = 10"
  "cv_norm (Point_minus (Point 10 20) (Point 29 20)) = 19"
  "cv_norm (Point_minus (Point 10 10) (Point 10 20)) = 10"
  by (simp_all add: cv_norm_def Point_minus_def f64_numeral f64_0 sqrt_361 sqrt_100)

lemma float_edge_samples_map:
  "float_edge_samples p1 p2 =
     (let n = max 10 (c_trunc (cv_norm (Point_minus p2 p1)))
      in map (\<lambda>(x, y). Point x y)
           (zip (map (float_interpolate (px p1) (px p2) n) [0 ..< nat n])
                (map (float_interpolate (py p1) (py p2) n) [0 ..< nat n])))"
  by (simp add: float_edge_samples_def float_sample_point_def Let_def zip_map_map map_nth
        zip_same_conv_map o_def)

lemma const_10: "map (float_interpolate 10 10 n) xs = map (\<lambda>s. 10) xs"
  by (simp add: float_interpolate_const)

lemma const_20: "map (float_interpolate 20 20 n) xs = map (\<lambda>s. 20) xs"
  by (simp add: float_interpolate_const)

lemma const_29: "map (float_interpolate 29 29 n) xs = map (\<lambda>s. 29) xs"
  by (simp add: float_interpolate_const)

lemma rect_R_samples:
  "float_quad_samples rect_R =
     [Point 10 10, Point 11 10, Point 12 10, Point 13 10, Point 14 10, Point 15 10, Point 16 10, Point 17 10, Point 18 10, Point 19 10, Point 20 10, Point 21 10, Point 22 10, Point 23 10, Point 24 10, Point 25 10, Point 26 10, Point 27 10, Point 28 10,
      Point 29 10, Point 29 11, Point 29 12, Point 29 13, Point 29 14, Point 29 15, Point 29 16, Point 29 17, Point 29 18, Point 29 19,
      Point 29 20, Point 28 20, Point 27 20, Point 26 20, Point 25 20, Point 24 20, Point 23 20, Point 22 20, Point 21 20, Point 20 20, Point 19 20, Point 18 20, Point 17 20, Point 16 20, Point 15 20, Point 13 20, Point 13 20, Point 12 20, Point 11 20,
      Point 10 20, Point 10 19, Point 10 18, Point 10 17, Point 10 16, Point 10 15, Point 10 14, Point 10 13, Point 10 12, Point 10 11]"
proof -
  have n: "nat 19 = 19" "nat 10 = 10" by simp_all
  have e0: "float_edge_samples (Point 10 10) (Point 29 10) = [Point 10 10, Point 11 10, Point 12 10, Point 13 10, Point 14 10, Point 15 10, Point 16 10, Point 17 10, Point 18 10, Point 19 10, Point 20 10, Point 21 10, Point 22 10, Point 23 10, Point 24 10, Point 25 10, Point 26 10, Point 27 10, Point 28 10]"
    by (simp add: float_edge_samples_map rect_R_lengths c_trunc_def n interpolate_10_29 const_10 upt_19)
  have e1: "float_edge_samples (Point 29 10) (Point 29 20) = [Point 29 10, Point 29 11, Point 29 12, Point 29 13, Point 29 14, Point 29 15, Point 29 16, Point 29 17, Point 29 18, Point 29 19]"
    by (simp add: float_edge_samples_map rect_R_lengths c_trunc_def n interpolate_10_20 const_29 upt_10)
  have e2: "float_edge_samples (Point 29 20) (Point 10 20) = [Point 29 20, Point 28 20, Point 27 20, Point 26 20, Point 25 20, Point 24 20, Point 23 20, Point 22 20, Point 21 20, Point 20 20, Point 19 20, Point 18 20, Point 17 20, Point 16 20, Point 15 20, Point 13 20, Point 13 20, Point 12 20, Point 11 20]"
    by (simp add: float_edge_samples_map rect_R_lengths c_trunc_def n interpolate_29_10 const_20 upt_19)
  have e3: "float_edge_samples (Point 10 20) (Point 10 10) = [Point 10 20, Point 10 19, Point 10 18, Point 10 17, Point 10 16, Point 10 15, Point 10 14, Point 10 13, Point 10 12, Point 10 11]"
    by (simp add: float_edge_samples_map rect_R_lengths c_trunc_def n interpolate_20_10 const_10 upt_10)
  have idx: "[0 ..< 4] = [0, 1, 2, 3::nat]" by (simp add: upt_rec)
  show ?thesis
    by (simp add: float_quad_samples_def rect_R_def idx e0 e1 e2 e3)
qed

lemma ramp_fields:
  "rows ramp_cv m = fst m" "cols ramp_cv m = fst (snd m)" "at_float ramp_cv m y x = real_of_int x"
  "setTo_rows ramp_cv m a b = m" "setTo_cols ramp_cv m a b = m"
  "findContours ramp_cv m = snd (snd m)"
  "contourArea ramp_cv = toy_contourArea" "arcLength ramp_cv ps cl' = 0"
  "approxPolyDP ramp_cv ps eps cl' = ps" "isContourConvex ramp_cv = toy_isContourConvex"
  "sort_contours ramp_cv = toy_sort"
  by (simp_all add: ramp_cv_def toy_cv_def)

lemma ramp_float_edgeScore: "float_edgeScore ramp_cv rect_R img_ramp = 565 / 29"
  by (simp add: float_edgeScore_def rect_R_samples spec_in_map_def ramp_fields img_ramp_def Let_def)

lemma rect_R_exact_samples:
  "spec_quad_samples rect_R =
     [Point 10 10, Point 11 10, Point 12 10, Point 13 10, Point 14 10, Point 15 10, Point 16 10, Point 17 10, Point 18 10, Point 19 10, Point 20 10, Point 21 10, Point 22 10, Point 23 10, Point 24 10, Point 25 10, Point 26 10, Point 27 10, Point 28 10,
      Point 29 10, Point 29 11, Point 29 12, Point 29 13, Point 29 14, Point 29 15, Point 29 16, Point 29 17, Point 29 18, Point 29 19,
      Point 29 20, Point 28 20, Point 27 20, Point 26 20, Point 25 20, Point 24 20, Point 23 20, Point 22 20, Point 21 20, Point 20 20, Point 19 20, Point 18 20, Point 17 20, Point 16 20, Point 15 20, Point 14 20, Point 13 20, Point 12 20, Point 11 20,
      Point 10 20, Point 10 19, Point 10 18, Point 10 17, Point 10 16, Point 10 15, Point 10 14, Point 10 13, Point 10 12, Point 10 11]"
proof -
  have n: "nat 19 = 19" "nat 10 = 10" by simp_all
  have e0: "spec_edge_samples (Point 10 10) (Point 29 10) = [Point 10 10, Point 11 10, Point 12 10, Point 13 10, Point 14 10, Point 15 10, Point 16 10, Point 17 10, Point 18 10, Point 19 10, Point 20 10, Point 21 10, Point 22 10, Point 23 10, Point 24 10, Point 25 10, Point 26 10, Point 27 10, Point 28 10]"
    by (simp add: spec_edge_samples_def spec_sample_point_def sqrt_361 n upt_19 c_trunc_def)
  have e1: "spec_edge_samples (Point 29 10) (Point 29 20) = [Point 29 10, Point 29 11, Point 29 12, Point 29 13, Point 29 14, Point 29 15, Point 29 16, Point 29 17, Point 29 18, Point 29 19]"
    by (simp add: spec_edge_samples_def spec_sample_point_def sqrt_100 n upt_10 c_trunc_def)
  have e2: "spec_edge_samples (Point 29 20) (Point 10 20) = [Point 29 20, Point 28 20, Point 27 20, Point 26 20, Point 25 20, Point 24 20, Point 23 20, Point 22 20, Point 21 20, Point 20 20, Point 19 20, Point 18 20, Point 17 20, Point 16 20, Point 15 20, Point 14 20, Point 13 20, Point 12 20, Point 11 20]"
    by (simp add: spec_edge_samples_def spec_sample_point_def sqrt_361 n upt_19 c_trunc_def)
  have e3: "spec_edge_samples (Point 10 20) (Point 10 10) = [Point 10 20, Point 10 19, Point 10 18, Point 10 17, Point 10 16, Point 10 15, Point 10 14, Point 10 13, Point 10 12, Point 10 11]"
    by (simp add: spec_edge_samples_def spec_sample_point_def sqrt_100 n upt_10 c_trunc_def)
  have idx: "[0 ..< 4] = [0, 1, 2, 3::nat]" by (simp add: upt_rec)
  show ?thesis
    by (simp add: spec_quad_samples_def rect_R_def idx e0 e1 e2 e3)
qed

lemma ramp_spec_edgeScore: "spec_edgeScore ramp_cv rect_R img_ramp = 39 / 2"
  by (simp add: spec_edgeScore_def rect_R_exact_samples spec_in_map_def ramp_fields img_ramp_def Let_def)

lemma good_rect_R: "isGoodQuad ramp_cv rect_R 1200 40 30 = Some True"
proof -
  have "length rect_R = 4" by (simp add: rect_R_def)
  then show ?thesis
    by (simp only: isGoodQuad_eq')
       (simp add: rect_R_def ramp_fields toy_contourArea_def toy_isContourConvex_def
          spec_within_border_def corner_ok_iff)
qed

lemma ramp_collectQuads:
  "collectQuads ramp_cv (30, 40, [rect_R]) 1200 img_ramp [] =
     Some [\<lparr>quad = rect_R, area = 190, edgeScore = 565 / 29\<rparr>,
           \<lparr>quad = rect_R, area = 190, edgeScore = 565 / 29\<rparr>]"
proof -
  have len: "length rect_R = 4" by (simp add: rect_R_def)
  have ar: "toy_contourArea rect_R = 190" by (simp add: toy_contourArea_def rect_R_def)
  have step: "collectQuads_step ramp_cv (30, 40, [rect_R]) 1200 img_ramp [rect_R] eps 0 cs =
      Some (cs @ [\<lparr>quad = rect_R, area = 190, edgeScore = 565 / 29\<rparr>])" for eps cs
    using good_rect_R
    by (simp add: collectQuads_step_def vec_at_def ramp_fields len computeEdgeScore_eq[OF len]
          ramp_float_edgeScore ar)
  have cb: "clean_borders ramp_cv (30, 40, [rect_R]) = Some (30, 40, [rect_R])"
    by (simp add: clean_borders_def rowRange_setTo_def colRange_setTo_def ramp_fields)
  have one: "[0 ..< nat (min (int (length [rect_R])) 20)] = [0]" by simp
  show ?thesis
    by (simp only: collectQuads_def cb Option.bind.simps Let_def ramp_fields snd_conv toy_sort.simps
          sort_insert.simps one for_each.simps step append_assoc append_Cons append_Nil)
qed

subsection \<open>Rounding at the points where it shows\<close>

text \<open>
  Sample 13 of 22 on the edge from \<open>(0, 0)\<close> to \<open>(22, 0)\<close>: the quotient \<open>13 / 22\<close> rounds
  down, its product with 22 rounds to the \<^verbatim>\<open>float\<close> just below 13, and the truncation
  gives 12, where the exact interpolation gives 13.
\<close>

lemma float_interpolate_0_22_13: "float_interpolate 0 22 22 13 = 12"
  by (subst float_interpolate_eval[where ka = 24 and kb = 20 and kc = 20])
     (simp_all add: in_binade_def round_to_def round_even_def c_trunc_def)

lemma exact_interpolate_0_22_13: "px (spec_sample_point (Point 0 0) (Point 22 0) 22 13) = 13"
  by (simp add: spec_sample_point_def c_trunc_def)





section \<open>The claims\<close>

text \<open>
  C1. As stated, for every input image, the claim fails: a working image of fewer than
  5 rows or 5 columns makes the border clearing of the first \<open>collectQuads\<close> call fail
  OpenCV's range check, and nothing is returned (the image of 3 rows and 3 columns
  below). What holds, with the transforms of OpenCV keeping the size of their argument
  and \<^verbatim>\<open>std::sort\<close> doing what the standard says: on a working image of at least 5 rows
  and 5 columns \<open>detectDocument\<close> returns, and its result is the empty list exactly when
  the candidate pool is empty after the six strategies have run; otherwise the result
  has exactly 4 points. \<open>quadToJni\<close> turns the empty list into \<^verbatim>\<open>nullptr\<close> and a quad
  into an array of 8 floats, so the caller can tell the two outcomes apart. On a smaller
  working image \<open>detectDocument\<close> does not return.
\<close>

theorem detectDocument_empty_iff_no_candidate:
  assumes "detectDocument_resize L bgr = Some (small, scale)"
    and "opencv_ok L" and "std_sort_ok L"
  shows "(5 \<le> rows L small \<and> 5 \<le> cols L small \<longrightarrow>
           (\<exists>pool r j.
              detectDocument_candidates L small (real_of_int (rows L small * cols L small))
                (detectDocument_gradMag L small) = Some pool \<and>
              detectDocument L bgr = Some r \<and>
              (r = [] \<longleftrightarrow> pool = []) \<and> (pool \<noteq> [] \<longrightarrow> length r = 4) \<and>
              quadToJni r = Some j \<and> (j = nullptr \<longleftrightarrow> pool = []) \<and>
              (pool \<noteq> [] \<longrightarrow> (\<exists>fs. j = FloatArray fs \<and> length fs = 8)))) \<and>
         (rows L small < 5 \<or> cols L small < 5 \<longrightarrow> detectDocument L bgr = None)"
proof (intro conjI impI)
  let ?A = "real_of_int (rows L small * cols L small)"
  let ?G = "detectDocument_gradMag L small"
  assume big: "5 \<le> rows L small \<and> 5 \<le> cols L small"
  then have r5: "5 \<le> rows L small" and c5: "5 \<le> cols L small" by simp_all
  from detectDocument_candidates_total[OF assms(2) r5 c5, of ?A ?G] obtain pool where
    pool: "detectDocument_candidates L small ?A ?G = Some pool" "list_all (pooled L ?A ?G) pool" by blast
  have "0 < rows L small" "0 < cols L small" using r5 c5 by linarith+
  then have A0: "?A \<noteq> 0" by simp
  have s0: "scale \<noteq> 0" by (rule detectDocument_resize_scale[OF assms(1)])
  from detectDocument_select_result[OF pool(2) A0 s0 assms(3)] obtain r where
    r: "detectDocument_select L ?A scale pool = Some r" "r = [] \<longleftrightarrow> pool = []" "pool \<noteq> [] \<longrightarrow> length r = 4"
    by blast
  have d: "detectDocument L bgr = Some r"
    by (simp only: detectDocument_def assms(1) Option.bind.simps prod.case Let_def pool(1) r(1))
  have "r = [] \<or> length r = 4" using r(2,3) by blast
  from quadToJni_result[OF this] obtain j where
    j: "quadToJni r = Some j" "j = nullptr \<longleftrightarrow> r = []" "r \<noteq> [] \<longrightarrow> (\<exists>fs. j = FloatArray fs \<and> length fs = 8)"
    by blast
  show "\<exists>pool r j.
      detectDocument_candidates L small ?A ?G = Some pool \<and>
      detectDocument L bgr = Some r \<and>
      (r = [] \<longleftrightarrow> pool = []) \<and> (pool \<noteq> [] \<longrightarrow> length r = 4) \<and>
      quadToJni r = Some j \<and> (j = nullptr \<longleftrightarrow> pool = []) \<and>
      (pool \<noteq> [] \<longrightarrow> (\<exists>fs. j = FloatArray fs \<and> length fs = 8))"
    using pool(1) d r(2,3) j by (intro exI[of _ pool] exI[of _ r] exI[of _ j]) simp
next
  assume "rows L small < 5 \<or> cols L small < 5"
  from detectDocument_candidates_too_small[OF assms(2) this]
  show "detectDocument L bgr = None"
    by (simp only: detectDocument_def assms(1) Option.bind.simps prod.case Let_def)
qed

theorem detectDocument_empty_iff_no_candidate_witness:
  "(\<exists>pool r j. detectDocument_candidates toy_cv img_two 40000 img_two = Some pool \<and> pool \<noteq> [] \<and>
       detectDocument toy_cv img_two = Some r \<and> length r = 4 \<and>
       quadToJni r = Some j \<and> j \<noteq> nullptr) \<and>
   detectDocument toy_cv img_blank = Some [] \<and> quadToJni [] = Some nullptr \<and>
   detectDocument toy_cv (4, 600, []) = None"
proof -
  have r2: "detectDocument_resize toy_cv img_two = Some (img_two, 1)"
    by (rule toy_resize_small) (simp_all add: img_two_def)
  have b2: "5 \<le> rows toy_cv img_two \<and> 5 \<le> cols toy_cv img_two"
    by (simp add: toy_fields img_two_def)
  have v2: "real_of_int (rows toy_cv img_two * cols toy_cv img_two) = 40000"
           "detectDocument_gradMag toy_cv img_two = img_two"
    by (simp_all add: toy_fields img_two_def detectDocument_gradMag_def toy_cvtColor_def)
  have ne: "pool_two \<noteq> []" by (simp add: pool_two_def)
  have first: "\<exists>pool r j. detectDocument_candidates toy_cv img_two 40000 img_two = Some pool \<and> pool \<noteq> [] \<and>
       detectDocument toy_cv img_two = Some r \<and> length r = 4 \<and>
       quadToJni r = Some j \<and> j \<noteq> nullptr"
    using detectDocument_empty_iff_no_candidate[OF r2 toy_opencv_ok toy_std_sort_ok] b2 toy_candidates_two ne
    unfolding v2 by auto
  have r0: "detectDocument_resize toy_cv img_blank = Some (img_blank, 1)"
    by (rule toy_resize_small) (simp_all add: img_blank_def)
  have b0: "5 \<le> rows toy_cv img_blank \<and> 5 \<le> cols toy_cv img_blank"
    by (simp add: toy_fields img_blank_def)
  have second: "detectDocument toy_cv img_blank = Some [] \<and> quadToJni [] = Some nullptr"
    using detectDocument_empty_iff_no_candidate[OF r0 toy_opencv_ok toy_std_sort_ok] b0 toy_candidates_blank
    by auto
  have r4: "detectDocument_resize toy_cv (4, 600, []) = Some ((4, 600, []), 1)"
    by (rule toy_resize_small) simp_all
  have "rows toy_cv (4, 600, []) < 5 \<or> cols toy_cv (4, 600, []) < 5"
    by (simp add: toy_fields)
  with detectDocument_empty_iff_no_candidate[OF r4 toy_opencv_ok toy_std_sort_ok]
  have third: "detectDocument toy_cv (4, 600, []) = None" by blast
  from first second third show ?thesis by blast
qed

text \<open>
  The counterexample to C1 as stated: on an image of 3 rows and 3 columns neither
  \<open>detectDocument\<close> nor the JNI entry point returns anything, neither the empty result
  nor a quad.
\<close>

theorem detectDocument_faults_on_tiny_image:
  "detectDocument toy_cv img_tiny = None \<and> findDocumentCorners toy_cv img_tiny = None"
  by (simp add: findDocumentCorners_def toy_fields toy_detect_tiny)

text \<open>
  C2. \<open>collectQuads\<close> only appends to the pool, and every candidate it appends has
  exactly 4 vertices, an area (recomputed from the quad with \<open>contourArea\<close>) within
  5% and 85% of the working-image area, a convex polygon, and fewer than 3 corners
  within 5 pixels of a border of the mask. It appends whenever the border clearing
  goes through, and does not return otherwise. In particular validation rejects every
  quad with 3 corners within 3 pixels of a border; it never looks at a score.
\<close>

theorem collectQuads_appends_only_valid_quads:
  "((clean_borders L edges = None \<and> collectQuads L edges imgArea gradMag candidates = None) \<or>
    (\<exists>clean new. clean_borders L edges = Some clean \<and>
       collectQuads L edges imgArea gradMag candidates = Some (candidates @ new) \<and>
       (\<forall>c\<in>set new.
          spec_valid_quad L imgArea (cols L clean) (rows L clean) (quad c) \<and>
          area c = contourArea L (quad c)))) \<and>
   (3 \<le> length (filter (spec_within_border 3 imgW imgH) q) \<longrightarrow>
      isGoodQuad L q imgArea imgW imgH = Some False)"
proof (intro conjI impI)
  show "(clean_borders L edges = None \<and> collectQuads L edges imgArea gradMag candidates = None) \<or>
    (\<exists>clean new. clean_borders L edges = Some clean \<and>
       collectQuads L edges imgArea gradMag candidates = Some (candidates @ new) \<and>
       (\<forall>c\<in>set new.
          spec_valid_quad L imgArea (cols L clean) (rows L clean) (quad c) \<and>
          area c = contourArea L (quad c)))"
  proof (cases "clean_borders L edges")
    case None
    then show ?thesis by (simp add: collectQuads_None)
  next
    case (Some clean)
    from collectQuads_appends[OF Some, of imgArea gradMag candidates] Some
    show ?thesis by (auto simp: list_all_iff)
  qed
next
  assume "3 \<le> length (filter (spec_within_border 3 imgW imgH) q)"
  also have "\<dots> \<le> length (filter (spec_within_border 5 imgW imgH) q)"
    by (rule filter_length_mono) (rule within_3_imp_5)
  finally show "isGoodQuad L q imgArea imgW imgH = Some False"
    by (rule isGoodQuad_border_reject)
qed

theorem collectQuads_appends_only_valid_quads_witness:
  "collectQuads toy_cv (200, 200, [square_A]) 40000 img_two [] =
     Some [\<lparr>quad = square_A, area = 3600, edgeScore = 1\<rparr>, \<lparr>quad = square_A, area = 3600, edgeScore = 1\<rparr>] \<and>
   spec_valid_quad toy_cv 40000 200 200 square_A \<and>
   isGoodQuad toy_cv border_quad 40000 200 200 = Some False"
proof -
  have run: "collectQuads toy_cv (200, 200, [square_A]) 40000 img_two [] =
     Some [\<lparr>quad = square_A, area = 3600, edgeScore = 1\<rparr>, \<lparr>quad = square_A, area = 3600, edgeScore = 1\<rparr>]"
    using toy_collectQuads_A[of "[]"] by (simp add: cand_A_def)
  have three: "3 \<le> length (filter (spec_within_border 3 200 200) border_quad)"
    by (simp add: border_quad_def spec_within_border_def)
  have cb: "clean_borders toy_cv (200, 200, [square_A]) = Some (200, 200, [square_A])"
    by (rule toy_clean_borders) simp_all
  from collectQuads_appends_only_valid_quads[of toy_cv "(200, 200, [square_A])" 40000 img_two "[]" 200 200 border_quad]
  obtain new where new: "collectQuads toy_cv (200, 200, [square_A]) 40000 img_two [] = Some ([] @ new)"
      "\<forall>c\<in>set new. spec_valid_quad toy_cv 40000 200 200 (quad c) \<and> area c = contourArea toy_cv (quad c)"
    and rej: "isGoodQuad toy_cv border_quad 40000 200 200 = Some False"
    using three cb by (auto simp: toy_fields)
  from new(1) run have "new = [\<lparr>quad = square_A, area = 3600, edgeScore = 1\<rparr>, \<lparr>quad = square_A, area = 3600, edgeScore = 1\<rparr>]"
    by simp
  with new(2) have "spec_valid_quad toy_cv 40000 200 200 square_A" by simp
  with run rej show ?thesis by blast
qed

text \<open>
  C3. The claim is that the absolute cosine is below 0.4 at every one of the 4 corners
  of a quad that survives validation. The angle loop of \<open>isGoodQuad\<close> runs over
  \<open>j = 2, 3, 4\<close>, that is, over the corners 1, 2 and 3 (lemma \<open>isGoodQuad_eq\<close>); corner 0
  is never examined. The convex kite below passes validation although the cosine at its
  corner 0, as \<open>angleCos\<close> computes it, has absolute value 0.64.
\<close>

theorem isGoodQuad_leaves_corner_0_unchecked:
  assumes "contourArea L kite = 6240" and "isContourConvex L kite"
  shows "isGoodQuad L kite 40000 200 200 = Some True \<and>
         angleCos (kite ! 1) (kite ! 3) (kite ! 0) = Some (spec_corner_cos kite 0) \<and>
         \<not> \<bar>spec_corner_cos kite 0\<bar> < 4 / 10"
proof (intro conjI)
  show "isGoodQuad L kite 40000 200 200 = Some True"
    using assms by (rule good_kite_any)
  show "angleCos (kite ! 1) (kite ! 3) (kite ! 0) = Some (spec_corner_cos kite 0)"
    by (simp only: angleCos_Some spec_corner_cos_def Let_def) simp
  show "\<not> \<bar>spec_corner_cos kite 0\<bar> < 4 / 10"
    using kite_corner_0 unfolding spec_corner_ok_def .
qed

theorem isGoodQuad_leaves_corner_0_unchecked_witness:
  "contourArea toy_cv kite = 6240 \<and> isContourConvex toy_cv kite \<and>
   isGoodQuad toy_cv kite 40000 200 200 = Some True \<and>
   \<not> \<bar>spec_corner_cos kite 0\<bar> < 4 / 10"
  using isGoodQuad_leaves_corner_0_unchecked[OF toy_kite] toy_kite by blast

text \<open>
  C4. As stated, with the sample points the truncated points of the linear
  interpolation, the claim fails: the program interpolates in \<^verbatim>\<open>float\<close>, and where the
  exact point has integer coordinates the rounded one can lie just before it and be
  truncated to the pixel before (the rectangle below).
  What holds: on a quad of four points \<open>computeEdgeScore\<close> returns the mean gradient
  magnitude over the in-bounds sample points, each edge contributing
  \<open>max(10, edge length)\<close> points whose coordinates are \<open>p1 + t * (p2 - p1)\<close> with
  \<open>t = s / n\<close>, every operation rounded to \<^verbatim>\<open>float\<close>, and truncated; points outside the
  gradient map are skipped, and the score is 0 without any (\<open>float_edgeScore\<close>). This is
  the \<open>edgeScore\<close> of every candidate at the moment \<open>collectQuads\<close> creates it.
\<close>

theorem edgeScore_is_mean_gradient:
  "(length q = 4 \<longrightarrow> computeEdgeScore L q gradMag = Some (float_edgeScore L q gradMag)) \<and>
   (clean_borders L edges \<noteq> None \<longrightarrow>
     (\<exists>new. collectQuads L edges imgArea gradMag candidates = Some (candidates @ new) \<and>
          (\<forall>c\<in>set new. edgeScore c = float_edgeScore L (quad c) gradMag)))"
proof (intro conjI impI)
  assume "length q = 4"
  then show "computeEdgeScore L q gradMag = Some (float_edgeScore L q gradMag)"
    by (rule computeEdgeScore_eq)
next
  assume "clean_borders L edges \<noteq> None"
  then obtain clean where "clean_borders L edges = Some clean" by auto
  from collectQuads_pooled[OF this, of imgArea gradMag candidates]
  show "\<exists>new. collectQuads L edges imgArea gradMag candidates = Some (candidates @ new) \<and>
          (\<forall>c\<in>set new. edgeScore c = float_edgeScore L (quad c) gradMag)"
    by (auto simp: list_all_iff pooled_def)
qed

theorem edgeScore_is_mean_gradient_witness:
  "computeEdgeScore ramp_cv rect_R img_ramp = Some (565 / 29) \<and>
   float_edgeScore ramp_cv rect_R img_ramp = 565 / 29 \<and>
   collectQuads ramp_cv (30, 40, [rect_R]) 1200 img_ramp [] =
     Some [\<lparr>quad = rect_R, area = 190, edgeScore = 565 / 29\<rparr>,
           \<lparr>quad = rect_R, area = 190, edgeScore = 565 / 29\<rparr>] \<and>
   (\<exists>new. collectQuads ramp_cv (30, 40, [rect_R]) 1200 img_ramp [] = Some ([] @ new) \<and> new \<noteq> [] \<and>
          (\<forall>c\<in>set new. edgeScore c = float_edgeScore ramp_cv (quad c) img_ramp))"
proof -
  have len: "length rect_R = 4" by (simp add: rect_R_def)
  have cb: "clean_borders ramp_cv (30, 40, [rect_R]) \<noteq> None"
    by (simp add: clean_borders_def rowRange_setTo_def colRange_setTo_def ramp_fields)
  note inst = edgeScore_is_mean_gradient[of rect_R ramp_cv img_ramp "(30, 40, [rect_R])" 1200 "[]"]
  from inst len have 1: "computeEdgeScore ramp_cv rect_R img_ramp = Some (565 / 29)"
    by (simp add: ramp_float_edgeScore)
  from inst cb obtain new where new: "collectQuads ramp_cv (30, 40, [rect_R]) 1200 img_ramp [] = Some ([] @ new)"
      "\<forall>c\<in>set new. edgeScore c = float_edgeScore ramp_cv (quad c) img_ramp"
    by blast
  from new(1) have "new \<noteq> []" by (auto simp: ramp_collectQuads)
  with new have 3: "\<exists>new. collectQuads ramp_cv (30, 40, [rect_R]) 1200 img_ramp [] = Some ([] @ new) \<and> new \<noteq> [] \<and>
          (\<forall>c\<in>set new. edgeScore c = float_edgeScore ramp_cv (quad c) img_ramp)"
    by blast
  from 1 3 show ?thesis by (simp add: ramp_float_edgeScore ramp_collectQuads)
qed

text \<open>
  The counterexample to C4 as stated: the rectangle \<open>(10, 10), (29, 10), (29, 20), (10, 20)\<close>
  in an image of 40 by 30 pixels whose gradient magnitude at column \<open>x\<close> is \<open>x\<close>. It is a
  valid quad, and the candidate created for it has the score 565/29 (about 19.48); the
  mean over the truncated points of the exact interpolation is 39/2. The two differ at
  sample 15 of the edge from \<open>(29, 20)\<close> to \<open>(10, 20)\<close>: the program reads column 13, the
  exact point is \<open>(14, 20)\<close>.
\<close>

theorem edgeScore_differs_from_exact_interpolation:
  "isGoodQuad ramp_cv rect_R 1200 40 30 = Some True \<and>
   collectQuads ramp_cv (30, 40, [rect_R]) 1200 img_ramp [] =
     Some [\<lparr>quad = rect_R, area = 190, edgeScore = 565 / 29\<rparr>,
           \<lparr>quad = rect_R, area = 190, edgeScore = 565 / 29\<rparr>] \<and>
   spec_edgeScore ramp_cv rect_R img_ramp = 39 / 2 \<and>
   float_sample_point (Point 29 20) (Point 10 20) 19 15 = Point 13 20 \<and>
   spec_sample_point (Point 29 20) (Point 10 20) 19 15 = Point 14 20"
proof (intro conjI)
  show "float_sample_point (Point 29 20) (Point 10 20) 19 15 = Point 13 20"
    by (simp add: float_sample_point_def interpolate_29_10 float_interpolate_const)
  show "spec_sample_point (Point 29 20) (Point 10 20) 19 15 = Point 14 20"
    by (simp add: spec_sample_point_def c_trunc_def)
qed (simp_all only: good_rect_R ramp_collectQuads ramp_spec_edgeScore)

text \<open>
  C5. The claim is that the candidate returned has the greatest combined score of the
  pool. The rescoring multiplies each score once by the area ratio, and
  \<^verbatim>\<open>std::max_element\<close> does find the first maximum (lemma \<open>best_position_first_max\<close>);
  but \<^verbatim>\<open>best\<close> is a reference into the vector, the vector is sorted before
  \<^verbatim>\<open>best.quad\<close> is read, and the quad returned is the one the sort has moved to that
  position. The smallest pool that shows it is \<open>[A, B]\<close> with combined scores 0.09 and
  0.2025: the maximum is at position 1, the descending sort puts \<open>A\<close> there, and the quad
  of \<open>A\<close> is returned. The same happens on the image with the two squares, whose pool
  has its first maximum at position 10 and, once sorted, the 6 copies of \<open>B\<close> in front
  of the 16 copies of \<open>A\<close>. Neither result depends on the order that the sort gives to
  candidates of equal score.
\<close>

theorem detectDocument_returns_lower_scoring_quad:
  "edgeScore (spec_combined 40000 cand_A) = 9 / 100 \<and>
   edgeScore (spec_combined 40000 cand_B) = 81 / 400 \<and>
   quad cand_A = square_A \<and> quad cand_B = square_B \<and> square_A \<noteq> square_B \<and>
   best_position (map (spec_combined 40000) [cand_A, cand_B]) = 1 \<and>
   (std_sort_ok L \<longrightarrow> detectDocument_select L 40000 1 [cand_A, cand_B] = Some square_A) \<and>
   detectDocument_candidates toy_cv img_two 40000 img_two = Some pool_two \<and>
   best_position (map (spec_combined 40000) pool_two) = 10 \<and>
   pool_two ! 10 = cand_B \<and>
   (std_sort_ok L \<longrightarrow> detectDocument_select L 40000 1 pool_two = Some square_A) \<and>
   detectDocument toy_cv img_two = Some square_A"
proof (intro conjI impI)
  show "detectDocument toy_cv img_two = Some square_A"
    using toy_detect_two by (simp add: square_A_def)
  show "detectDocument_select L 40000 1 pool_two = Some square_A" if "std_sort_ok L"
    using toy_select_two[OF that] by (simp add: square_A_def)
  show "detectDocument_select L 40000 1 [cand_A, cand_B] = Some square_A" if "std_sort_ok L"
    using toy_select_pair[OF that] by (simp add: square_A_def)
  show "detectDocument_candidates toy_cv img_two 40000 img_two = Some pool_two"
    by (rule toy_candidates_two)
  show "best_position (map (spec_combined 40000) pool_two) = 10"
    by (rule best_two)
  show "pool_two ! 10 = cand_B"
    by (simp add: pool_two_list)
  show "best_position (map (spec_combined 40000) [cand_A, cand_B]) = 1"
    by (rule best_pair)
  show "square_A \<noteq> square_B"
    by (simp add: square_A_def square_B_def)
qed (simp_all add: spec_combined_def cand_A_def cand_B_def)

theorem detectDocument_returns_lower_scoring_quad_witness:
  "std_sort_ok toy_cv \<and>
   detectDocument_select toy_cv 40000 1 [cand_A, cand_B] = Some square_A \<and>
   detectDocument_select toy_cv 40000 1 pool_two = Some square_A \<and>
   detectDocument toy_cv img_two = Some square_A"
  using detectDocument_returns_lower_scoring_quad[of toy_cv] toy_std_sort_ok by blast

text \<open>
  C6. For every quad that \<open>detectDocument\<close> returns: it has 4 points; the point at
  index 0 attains the minimum of \<open>x + y\<close>, index 2 the maximum of \<open>x + y\<close>, index 1 the
  minimum of \<open>y - x\<close> and index 3 the maximum of \<open>y - x\<close>, both over the 4 corners
  handed to \<open>orderPoints\<close> and over the 4 points returned. (\<^verbatim>\<open>std::sort\<close> is taken to do
  what the standard says, so that the quad read after the sort is one of the pool.)
\<close>

theorem detectDocument_corner_order:
  assumes "detectDocument L bgr = Some r" "r \<noteq> []" "std_sort_ok L"
  shows "length r = 4 \<and>
    (\<exists>pts. length pts = 4 \<and> orderPoints pts = Some r \<and> set r \<subseteq> set pts \<and>
       (\<forall>p\<in>set pts. px (r ! 0) + py (r ! 0) \<le> px p + py p \<and> px p + py p \<le> px (r ! 2) + py (r ! 2) \<and>
                     py (r ! 1) - px (r ! 1) \<le> py p - px p \<and> py p - px p \<le> py (r ! 3) - px (r ! 3))) \<and>
    (\<forall>p\<in>set r. px (r ! 0) + py (r ! 0) \<le> px p + py p \<and> px p + py p \<le> px (r ! 2) + py (r ! 2) \<and>
                  py (r ! 1) - px (r ! 1) \<le> py p - px p \<and> py p - px p \<le> py (r ! 3) - px (r ! 3))"
proof -
  from detectDocument_nonempty_result[OF assms] obtain pts where
    pts: "length pts = 4" "orderPoints pts = Some r" by blast
  note spec = orderPoints_spec[OF pts]
  from spec have sub: "set r \<subseteq> set pts" by blast
  from spec have all: "\<forall>p\<in>set pts. px (r ! 0) + py (r ! 0) \<le> px p + py p \<and> px p + py p \<le> px (r ! 2) + py (r ! 2) \<and>
                     py (r ! 1) - px (r ! 1) \<le> py p - px p \<and> py p - px p \<le> py (r ! 3) - px (r ! 3)" by blast
  from all sub have own: "\<forall>p\<in>set r. px (r ! 0) + py (r ! 0) \<le> px p + py p \<and> px p + py p \<le> px (r ! 2) + py (r ! 2) \<and>
                  py (r ! 1) - px (r ! 1) \<le> py p - px p \<and> py p - px p \<le> py (r ! 3) - px (r ! 3)" by blast
  from spec have "length r = 4" by blast
  with pts sub all own show ?thesis by blast
qed

theorem detectDocument_corner_order_witness:
  "detectDocument toy_cv img_two = Some [Point 20 20, Point 80 20, Point 80 80, Point 20 80] \<and>
   (\<exists>pts. length pts = 4 \<and> orderPoints pts = Some [Point 20 20, Point 80 20, Point 80 80, Point 20 80])"
proof -
  have ne: "[Point 20 20, Point 80 20, Point 80 80, Point 20 80] \<noteq> []" by simp
  from detectDocument_corner_order[OF toy_detect_two ne toy_std_sort_ok]
  have "\<exists>pts. length pts = 4 \<and> orderPoints pts = Some [Point 20 20, Point 80 20, Point 80 80, Point 20 80]"
    by blast
  with toy_detect_two show ?thesis by simp
qed



text \<open>
  C9. For every quad, degenerate ones with coincident or collinear points included,
  scoring and validation never divide by zero and never read out of bounds: the angle
  cosine of any three points is defined (the denominator holds \<open>1e-10\<close> under the root),
  validation and the edge score of any four points return a value over any gradient
  map, and when no sample falls inside the map the score is 0, with no division.
\<close>

theorem scoring_and_validation_never_fault:
  assumes "length q = 4"
  shows "(\<exists>c. angleCos p1 p2 p0 = Some c) \<and>
         (\<exists>b. isGoodQuad L q imgArea imgW imgH = Some b) \<and>
         (\<exists>s. computeEdgeScore L q gradMag = Some s) \<and>
         (filter (spec_in_map L gradMag) (float_quad_samples q) = [] \<longrightarrow>
            computeEdgeScore L q gradMag = Some 0)"
proof (intro conjI impI)
  show "\<exists>c. angleCos p1 p2 p0 = Some c"
    by (simp add: angleCos_Some)
  show "\<exists>b. isGoodQuad L q imgArea imgW imgH = Some b"
    using assms by (simp add: isGoodQuad_total)
  show "\<exists>s. computeEdgeScore L q gradMag = Some s"
    using assms by (simp add: computeEdgeScore_eq)
  assume "filter (spec_in_map L gradMag) (float_quad_samples q) = []"
  then show "computeEdgeScore L q gradMag = Some 0"
    using assms by (simp add: computeEdgeScore_eq float_edgeScore_def)
qed

theorem scoring_and_validation_never_fault_witness:
  "(\<exists>c. angleCos (Point 7 7) (Point 7 7) (Point 7 7) = Some c) \<and>
   (\<exists>b. isGoodQuad toy_cv [Point 7 7, Point 7 7, Point 7 7, Point 7 7] 40000 200 200 = Some b) \<and>
   (\<exists>s. computeEdgeScore toy_cv [Point 7 7, Point 7 7, Point 7 7, Point 7 7] (0, 0, []) = Some s) \<and>
   computeEdgeScore toy_cv [Point 7 7, Point 7 7, Point 7 7, Point 7 7] (0, 0, []) = Some 0"
proof -
  have len: "length [Point 7 7, Point 7 7, Point 7 7, Point 7 7] = 4" by simp
  have none: "filter (spec_in_map toy_cv (0, 0, []))
      (float_quad_samples [Point 7 7, Point 7 7, Point 7 7, Point 7 7]) = []"
    by (simp add: spec_in_map_def toy_fields)
  show ?thesis
    using scoring_and_validation_never_fault[OF len, of "Point 7 7" "Point 7 7" "Point 7 7"
        toy_cv 40000 200 200 "(0, 0, [])"] none
    by blast
qed

text \<open>
  C10. \<open>orderPoints\<close> fills each of its 4 slots on its own, with the first point that
  attains the minimum or maximum of \<open>x + y\<close> or \<open>y - x\<close>; so every output point is an
  input point. The output need not be a permutation of the input: the diamond (a square
  rotated by 45 degrees) is convex, passes \<open>isGoodQuad\<close> and has 4 distinct corners,
  but its first corner comes out twice and its last corner not at all.
\<close>

theorem orderPoints_not_a_permutation:
  "(length pts = 4 \<longrightarrow>
     (\<exists>i0 i1 i2 i3.
        orderPoints pts = Some [pts ! i0, pts ! i1, pts ! i2, pts ! i3] \<and>
        i0 < 4 \<and> i1 < 4 \<and> i2 < 4 \<and> i3 < 4 \<and>
        (\<forall>j<4. px (pts ! i0) + py (pts ! i0) \<le> px (pts ! j) + py (pts ! j)) \<and>
        (\<forall>j<i0. px (pts ! i0) + py (pts ! i0) < px (pts ! j) + py (pts ! j)) \<and>
        (\<forall>j<4. px (pts ! j) + py (pts ! j) \<le> px (pts ! i2) + py (pts ! i2)) \<and>
        (\<forall>j<i2. px (pts ! j) + py (pts ! j) < px (pts ! i2) + py (pts ! i2)) \<and>
        (\<forall>j<4. py (pts ! i1) - px (pts ! i1) \<le> py (pts ! j) - px (pts ! j)) \<and>
        (\<forall>j<i1. py (pts ! i1) - px (pts ! i1) < py (pts ! j) - px (pts ! j)) \<and>
        (\<forall>j<4. py (pts ! j) - px (pts ! j) \<le> py (pts ! i3) - px (pts ! i3)) \<and>
        (\<forall>j<i3. py (pts ! j) - px (pts ! j) < py (pts ! i3) - px (pts ! i3)))) \<and>
   length diamond = 4 \<and> distinct diamond \<and>
   (contourArea L diamond = 1800 \<longrightarrow> isContourConvex L diamond \<longrightarrow>
      isGoodQuad L diamond 10000 100 100 = Some True) \<and>
   orderPoints diamond = Some [diamond ! 0, diamond ! 0, diamond ! 1, diamond ! 2] \<and>
   diamond ! 3 \<in> set diamond \<and>
   diamond ! 3 \<notin> set [diamond ! 0, diamond ! 0, diamond ! 1, diamond ! 2]"
proof (intro conjI impI)
  assume "length pts = 4"
  then show "\<exists>i0 i1 i2 i3.
        orderPoints pts = Some [pts ! i0, pts ! i1, pts ! i2, pts ! i3] \<and>
        i0 < 4 \<and> i1 < 4 \<and> i2 < 4 \<and> i3 < 4 \<and>
        (\<forall>j<4. px (pts ! i0) + py (pts ! i0) \<le> px (pts ! j) + py (pts ! j)) \<and>
        (\<forall>j<i0. px (pts ! i0) + py (pts ! i0) < px (pts ! j) + py (pts ! j)) \<and>
        (\<forall>j<4. px (pts ! j) + py (pts ! j) \<le> px (pts ! i2) + py (pts ! i2)) \<and>
        (\<forall>j<i2. px (pts ! j) + py (pts ! j) < px (pts ! i2) + py (pts ! i2)) \<and>
        (\<forall>j<4. py (pts ! i1) - px (pts ! i1) \<le> py (pts ! j) - px (pts ! j)) \<and>
        (\<forall>j<i1. py (pts ! i1) - px (pts ! i1) < py (pts ! j) - px (pts ! j)) \<and>
        (\<forall>j<4. py (pts ! j) - px (pts ! j) \<le> py (pts ! i3) - px (pts ! i3)) \<and>
        (\<forall>j<i3. py (pts ! j) - px (pts ! j) < py (pts ! i3) - px (pts ! i3))"
    by (rule orderPoints_slots)
next
  show "length diamond = 4" by (simp add: diamond_def)
  show "distinct diamond" by (simp add: diamond_def)
  assume "contourArea L diamond = 1800" "isContourConvex L diamond"
  then show "isGoodQuad L diamond 10000 100 100 = Some True" by (rule good_diamond_any)
next
  show "orderPoints diamond = Some [diamond ! 0, diamond ! 0, diamond ! 1, diamond ! 2]"
    using orderPoints_diamond by (simp add: diamond_def)
  show "diamond ! 3 \<in> set diamond" by (simp add: diamond_def)
  show "diamond ! 3 \<notin> set [diamond ! 0, diamond ! 0, diamond ! 1, diamond ! 2]"
    by (simp add: diamond_def)
qed

theorem orderPoints_not_a_permutation_witness:
  "(\<exists>i0 i1 i2 i3.
      orderPoints diamond = Some [diamond ! i0, diamond ! i1, diamond ! i2, diamond ! i3] \<and>
      i0 < 4 \<and> i1 < 4 \<and> i2 < 4 \<and> i3 < 4) \<and>
   isGoodQuad toy_cv diamond 10000 100 100 = Some True \<and>
   orderPoints diamond = Some [Point 50 20, Point 50 20, Point 80 50, Point 50 80] \<and>
   Point 20 50 \<in> set diamond"
proof -
  have len: "length diamond = 4" by (simp add: diamond_def)
  note inst = orderPoints_not_a_permutation[of diamond toy_cv]
  from inst len
  have "\<exists>i0 i1 i2 i3.
      orderPoints diamond = Some [diamond ! i0, diamond ! i1, diamond ! i2, diamond ! i3] \<and>
      i0 < 4 \<and> i1 < 4 \<and> i2 < 4 \<and> i3 < 4"
    by blast
  moreover from inst toy_diamond have "isGoodQuad toy_cv diamond 10000 100 100 = Some True"
    by blast
  moreover have "Point 20 50 \<in> set diamond" by (simp add: diamond_def)
  ultimately show ?thesis using orderPoints_diamond by blast
qed

end
